theory Spec2Isabelle
  imports Complex_Main "HOL-Library.Sublist" "HOL-Library.Multiset"
begin

section \<open>Strings and the built-ins the engine calls\<close>

text \<open>
  A JavaScript string is a sequence of UTF-16 code units; a code unit is modelled by its
  numeric value. \<open>str\<close> writes an ASCII literal as such a sequence.
\<close>

type_synonym jsstring = "nat list"

definition str :: "string \<Rightarrow> jsstring" where
  "str s = map of_char s"

text \<open>
  \<open>URIError\<close> is thrown by \<open>decodeURIComponent\<close> on a malformed escape, \<open>TypeError\<close> by a
  property read on \<open>undefined\<close>.
\<close>

datatype error = URIError | TypeError

subsection \<open>decodeURIComponent\<close>

definition hexDigit :: "nat \<Rightarrow> nat option" where
  "hexDigit c =
     (if 48 \<le> c \<and> c \<le> 57 then Some (c - 48)
      else if 65 \<le> c \<and> c \<le> 70 then Some (c - 55)
      else if 97 \<le> c \<and> c \<le> 102 then Some (c - 87)
      else None)"

text \<open>\<open>parseHexOctet s\<close> reads an escape \<open>%XY\<close> at the head of \<open>s\<close>.\<close>

fun parseHexOctet :: "jsstring \<Rightarrow> nat option" where
  "parseHexOctet (p # h # l # _) =
     (if p = 37 then
        (case hexDigit h of None \<Rightarrow> None
         | Some a \<Rightarrow> (case hexDigit l of None \<Rightarrow> None | Some b \<Rightarrow> Some (16 * a + b)))
      else None)"
| "parseHexOctet _ = None"

fun readOctets :: "nat \<Rightarrow> jsstring \<Rightarrow> nat list option" where
  "readOctets 0 s = Some []"
| "readOctets (Suc m) s =
     (case parseHexOctet s of None \<Rightarrow> None
      | Some b \<Rightarrow> (case readOctets m (drop 3 s) of None \<Rightarrow> None | Some bs \<Rightarrow> Some (b # bs)))"

definition leadingOnes :: "nat \<Rightarrow> nat" where
  "leadingOnes b =
     (if b < 128 then 0 else if b < 192 then 1 else if b < 224 then 2
      else if b < 240 then 3 else if b < 248 then 4 else 5)"

definition continuation :: "nat \<Rightarrow> bool" where
  "continuation b = (128 \<le> b \<and> b < 192)"

text \<open>
  The code point of a well-formed UTF-8 sequence of two to four octets: continuation
  octets in \<open>80..BF\<close>, no overlong form, no surrogate, nothing above \<open>U+10FFFF\<close>.
\<close>

fun utf8CodePoint :: "nat list \<Rightarrow> nat option" where
  "utf8CodePoint [b0, b1] =
     (let v = (b0 - 192) * 64 + (b1 - 128)
      in if continuation b1 \<and> 128 \<le> v then Some v else None)"
| "utf8CodePoint [b0, b1, b2] =
     (let v = (b0 - 224) * 4096 + (b1 - 128) * 64 + (b2 - 128)
      in if continuation b1 \<and> continuation b2 \<and> 2048 \<le> v \<and> \<not> (55296 \<le> v \<and> v \<le> 57343)
         then Some v else None)"
| "utf8CodePoint [b0, b1, b2, b3] =
     (let v = (b0 - 240) * 262144 + (b1 - 128) * 4096 + (b2 - 128) * 64 + (b3 - 128)
      in if continuation b1 \<and> continuation b2 \<and> continuation b3 \<and> 65536 \<le> v \<and> v \<le> 1114111
         then Some v else None)"
| "utf8CodePoint _ = None"

definition utf16EncodeCodePoint :: "nat \<Rightarrow> jsstring" where
  "utf16EncodeCodePoint v =
     (if v \<le> 65535 then [v]
      else [55296 + (v - 65536) div 1024, 56320 + (v - 65536) mod 1024])"

definition append_result :: "jsstring \<Rightarrow> error + jsstring \<Rightarrow> error + jsstring" where
  "append_result s r = (case r of Inl e \<Rightarrow> Inl e | Inr t \<Rightarrow> Inr (s @ t))"

function decodeURIComponent :: "jsstring \<Rightarrow> error + jsstring" where
  "decodeURIComponent [] = Inr []"
| "decodeURIComponent (c # s) =
     (if c \<noteq> 37 then append_result [c] (decodeURIComponent s)
      else
        (case parseHexOctet (c # s) of
           None \<Rightarrow> Inl URIError
         | Some b \<Rightarrow>
            (let n = leadingOnes b in
             if n = 0 then append_result [b] (decodeURIComponent (drop 2 s))
             else if n = 1 \<or> n > 4 then Inl URIError
             else
               (case readOctets (n - 1) (drop 2 s) of
                  None \<Rightarrow> Inl URIError
                | Some bs \<Rightarrow>
                   (case utf8CodePoint (b # bs) of
                      None \<Rightarrow> Inl URIError
                    | Some v \<Rightarrow>
                       append_result (utf16EncodeCodePoint v)
                         (decodeURIComponent (drop (3 * (n - 1)) (drop 2 s))))))))"
  by pat_completeness auto
termination
  by (relation "measure length") auto

subsection \<open>trim, toLowerCase, includes\<close>

text \<open>The code units of ECMAScript's WhiteSpace and LineTerminator.\<close>

definition isWhiteSpace :: "nat \<Rightarrow> bool" where
  "isWhiteSpace c =
     ((9 \<le> c \<and> c \<le> 13) \<or> c = 32 \<or> c = 160 \<or> c = 5760 \<or> (8192 \<le> c \<and> c \<le> 8202)
      \<or> c = 8232 \<or> c = 8233 \<or> c = 8239 \<or> c = 8287 \<or> c = 12288 \<or> c = 65279)"

definition trim :: "jsstring \<Rightarrow> jsstring" where
  "trim s = rev (dropWhile isWhiteSpace (rev (dropWhile isWhiteSpace s)))"

text \<open>
  The case table is written out for Basic Latin and Latin-1 (\<open>A..Z\<close>, and \<open>U+00C0..U+00DE\<close>
  without the multiplication sign); the model leaves every other code unit as it is. No
  result below depends on which letters the table maps.
\<close>

definition lowerUnit :: "nat \<Rightarrow> nat" where
  "lowerUnit c =
     (if (65 \<le> c \<and> c \<le> 90) \<or> (192 \<le> c \<and> c \<le> 222 \<and> c \<noteq> 215) then c + 32 else c)"

definition toLowerCase :: "jsstring \<Rightarrow> jsstring" where
  "toLowerCase s = map lowerUnit s"

text \<open>\<open>includes_js s t\<close> is \<open>s.includes(t)\<close>: \<open>t\<close> occurs in \<open>s\<close> as a contiguous run.\<close>

fun includes_js :: "jsstring \<Rightarrow> jsstring \<Rightarrow> bool" where
  "includes_js [] t = (t = [])"
| "includes_js (x # s) t = (prefix t (x # s) \<or> includes_js s t)"

section \<open>The engine\<close>

record quote =
  text_q :: jsstring
  author :: jsstring
  tags :: "jsstring list"
  length_q :: int

subsection \<open>Normalization\<close>

definition normalizeAuthorName :: "jsstring \<Rightarrow> error + jsstring" where
  "normalizeAuthorName a =
     (case decodeURIComponent a of Inl e \<Rightarrow> Inl e | Inr d \<Rightarrow> Inr (toLowerCase (trim d)))"

subsection \<open>Array methods whose callback may throw\<close>

text \<open>
  \<open>some\<close>, \<open>every\<close> and \<open>filter\<close> visit the elements in order; an exception of the
  callback ends the traversal, and \<open>some\<close> and \<open>every\<close> stop at the first deciding element.
\<close>

fun some_js :: "('a \<Rightarrow> error + bool) \<Rightarrow> 'a list \<Rightarrow> error + bool" where
  "some_js p [] = Inr False"
| "some_js p (x # xs) =
     (case p x of Inl e \<Rightarrow> Inl e | Inr b \<Rightarrow> if b then Inr True else some_js p xs)"

fun every_js :: "('a \<Rightarrow> error + bool) \<Rightarrow> 'a list \<Rightarrow> error + bool" where
  "every_js p [] = Inr True"
| "every_js p (x # xs) =
     (case p x of Inl e \<Rightarrow> Inl e | Inr b \<Rightarrow> if b then every_js p xs else Inr False)"

fun filter_js :: "('a \<Rightarrow> error + bool) \<Rightarrow> 'a list \<Rightarrow> error + 'a list" where
  "filter_js p [] = Inr []"
| "filter_js p (x # xs) =
     (case p x of
        Inl e \<Rightarrow> Inl e
      | Inr b \<Rightarrow>
         (case filter_js p xs of
            Inl e \<Rightarrow> Inl e
          | Inr ys \<Rightarrow> Inr (if b then x # ys else ys)))"

subsection \<open>Predicates\<close>

text \<open>
  An array argument that may be \<open>null\<close> is an option; every array is truthy, the empty one
  too, so \<open>!requestedAuthors\<close> holds for \<open>None\<close> only.
\<close>

definition hasMatchingAuthor :: "quote \<Rightarrow> jsstring list option \<Rightarrow> error + bool" where
  "hasMatchingAuthor quote requestedAuthors =
     (case requestedAuthors of
        None \<Rightarrow> Inr True
      | Some ras \<Rightarrow>
         (case normalizeAuthorName (author quote) of
            Inl e \<Rightarrow> Inl e
          | Inr quoteAuthor \<Rightarrow>
             some_js
               (\<lambda>a. case normalizeAuthorName a of
                      Inl e \<Rightarrow> Inl e
                    | Inr na \<Rightarrow> Inr (na = quoteAuthor))
               ras))"

definition hasPartialAuthorMatch :: "quote \<Rightarrow> jsstring list option \<Rightarrow> error + bool" where
  "hasPartialAuthorMatch quote searchTerms =
     (case searchTerms of
        None \<Rightarrow> Inr True
      | Some sts \<Rightarrow>
         if length sts = 0 then Inr True
         else
           (case normalizeAuthorName (author quote) of
              Inl e \<Rightarrow> Inl e
            | Inr quoteAuthor \<Rightarrow>
               every_js
                 (\<lambda>term. case normalizeAuthorName term of
                          Inl e \<Rightarrow> Inl e
                        | Inr nt \<Rightarrow> Inr (includes_js quoteAuthor nt))
                 sts))"

definition hasMatchingTags :: "quote \<Rightarrow> jsstring list option \<Rightarrow> bool" where
  "hasMatchingTags quote requestedTags =
     (case requestedTags of
        None \<Rightarrow> True
      | Some rts \<Rightarrow>
         (let quoteTags = set (tags quote)
          in list_all (\<lambda>tag. tag \<in> quoteTags) rts))"

definition hasPartialTagMatch :: "quote \<Rightarrow> jsstring list option \<Rightarrow> bool" where
  "hasPartialTagMatch quote tagTerms =
     (case tagTerms of
        None \<Rightarrow> True
      | Some tts \<Rightarrow>
         if length tts = 0 then True
         else
           (let quoteTags = map toLowerCase (tags quote)
            in list_all
                 (\<lambda>term. let normalizedTerm = toLowerCase term
                          in list_ex (\<lambda>tag. includes_js tag normalizedTerm) quoteTags)
                 tts))"

subsection \<open>Sampling\<close>

text \<open>
  \<open>Math.random()\<close> yields a number in \<open>[0, 1)\<close>, here a real of that interval. The
  generator is a parameter: \<open>rnd i\<close> is the value of the call made by iteration \<open>i\<close> of
  the sampling loop. \<open>randomIndex r n\<close> is \<open>Math.floor(r * n)\<close> with the exact product; the
  code floors the product rounded to a double, which can be the next index and is below
  \<open>n\<close> as well. The results below use only that the index is below \<open>n\<close>.
\<close>

typedef unit_interval = "{r :: real. 0 \<le> r \<and> r < 1}"
  by (rule exI [of _ 0]) simp

setup_lifting type_definition_unit_interval

lift_definition unit_zero :: unit_interval is "0"
  by simp

lift_definition unit_half :: unit_interval is "1 / 2"
  by simp

text \<open>
  \<open>a[i]\<close> is \<open>undefined\<close> (\<open>None\<close>) outside the array, and \<open>a.splice(i, 1)\<close> with \<open>i \<ge> 0\<close>
  removes the element at \<open>i\<close> when there is one.
\<close>

definition index_js :: "'a list \<Rightarrow> nat \<Rightarrow> 'a option" where
  "index_js a i = (if i < length a then Some (a ! i) else None)"

definition splice1 :: "'a list \<Rightarrow> nat \<Rightarrow> 'a list" where
  "splice1 a i = take i a @ drop (Suc i) a"

definition randomIndex :: "unit_interval \<Rightarrow> nat \<Rightarrow> nat" where
  "randomIndex r n = nat \<lfloor>Rep_unit_interval r * real n\<rfloor>"

text \<open>
  The loop \<open>for (let i = 0; i < count; i++)\<close> of \<open>getQuotes\<close> and of \<open>searchQuotes\<close> (the same
  text in both), from iteration \<open>i\<close> on; it returns \<open>quotes\<close> and what is left of
  \<open>tempQuotes\<close>.
\<close>

function sampleLoop ::
  "(nat \<Rightarrow> unit_interval) \<Rightarrow> int \<Rightarrow> int \<Rightarrow> 'a option list \<Rightarrow> 'a list
     \<Rightarrow> 'a option list \<times> 'a list" where
  "sampleLoop rnd i count_arg quotes tempQuotes =
     (if i < count_arg then
        (let ri = randomIndex (rnd (nat i)) (length tempQuotes)
         in sampleLoop rnd (i + 1) count_arg (quotes @ [index_js tempQuotes ri])
              (splice1 tempQuotes ri))
      else (quotes, tempQuotes))"
  by pat_completeness auto
termination
  by (relation "measure (\<lambda>(rnd, i, count_arg, quotes, tempQuotes). nat (count_arg - i))") auto

subsection \<open>The two matchers\<close>

text \<open>
  The destructured parameters are the arguments, \<open>None\<close> for \<open>null\<close>; the corpus
  \<open>quotesData\<close> and the generator come first. The result is \<open>Inl\<close> for an exception,
  \<open>Inr None\<close> for \<open>null\<close> and \<open>Inr (Some quotes)\<close> for an array. The three filtering steps
  are named, so that they can be applied in another order.
\<close>

definition authorFilter :: "jsstring list option \<Rightarrow> quote list \<Rightarrow> error + quote list" where
  "authorFilter authors validQuotes =
     (if authors \<noteq> None
      then filter_js (\<lambda>quote. hasMatchingAuthor quote authors) validQuotes
      else Inr validQuotes)"

definition tagFilter :: "jsstring list option \<Rightarrow> quote list \<Rightarrow> quote list" where
  "tagFilter tags_arg validQuotes =
     (if tags_arg \<noteq> None
      then filter (\<lambda>quote. hasMatchingTags quote tags_arg) validQuotes
      else validQuotes)"

definition lengthFilters :: "int option \<Rightarrow> int option \<Rightarrow> quote list \<Rightarrow> quote list" where
  "lengthFilters maxLength minLength validQuotes =
     (let validQuotes1 =
            (case minLength of
               None \<Rightarrow> validQuotes
             | Some mn \<Rightarrow> filter (\<lambda>quote. length_q quote \<ge> mn) validQuotes)
      in (case maxLength of
            None \<Rightarrow> validQuotes1
          | Some mx \<Rightarrow> filter (\<lambda>quote. length_q quote \<le> mx) validQuotes1))"

text \<open>\<open>count = Math.min(count, validQuotes.length)\<close>, then the loop over a copy.\<close>

definition sample :: "(nat \<Rightarrow> unit_interval) \<Rightarrow> int \<Rightarrow> 'a list \<Rightarrow> 'a option list" where
  "sample rnd count_arg validQuotes =
     (let count1 = min count_arg (int (length validQuotes))
      in fst (sampleLoop rnd 0 count1 [] validQuotes))"

definition getQuotes ::
  "(nat \<Rightarrow> unit_interval) \<Rightarrow> quote list \<Rightarrow> int option \<Rightarrow> int option
     \<Rightarrow> jsstring list option \<Rightarrow> int \<Rightarrow> jsstring list option
     \<Rightarrow> error + quote option list option" where
  "getQuotes rnd quotesData maxLength minLength tags_arg count_arg authors =
     (case authorFilter authors quotesData of
        Inl e \<Rightarrow> Inl e
      | Inr validQuotes1 \<Rightarrow>
         (let validQuotes2 = tagFilter tags_arg validQuotes1
          in if length validQuotes2 = 0 then Inr None
             else
               (let validQuotes3 = lengthFilters maxLength minLength validQuotes2
                in if length validQuotes3 = 0 then Inr None
                   else Inr (Some (sample rnd count_arg validQuotes3)))))"

definition partialAuthorFilter :: "jsstring list option \<Rightarrow> quote list \<Rightarrow> error + quote list" where
  "partialAuthorFilter authorTerms validQuotes =
     (if authorTerms \<noteq> None \<and> length (the authorTerms) > 0
      then filter_js (\<lambda>quote. hasPartialAuthorMatch quote authorTerms) validQuotes
      else Inr validQuotes)"

definition partialTagFilter :: "jsstring list option \<Rightarrow> quote list \<Rightarrow> quote list" where
  "partialTagFilter tagTerms validQuotes =
     (if tagTerms \<noteq> None \<and> length (the tagTerms) > 0
      then filter (\<lambda>quote. hasPartialTagMatch quote tagTerms) validQuotes
      else validQuotes)"

definition searchQuotes ::
  "(nat \<Rightarrow> unit_interval) \<Rightarrow> quote list \<Rightarrow> int option \<Rightarrow> int option
     \<Rightarrow> jsstring list option \<Rightarrow> int \<Rightarrow> jsstring list option
     \<Rightarrow> error + quote option list option" where
  "searchQuotes rnd quotesData maxLength minLength tagTerms limit authorTerms =
     (case partialAuthorFilter authorTerms quotesData of
        Inl e \<Rightarrow> Inl e
      | Inr validQuotes1 \<Rightarrow>
         (let validQuotes2 = partialTagFilter tagTerms validQuotes1
          in if length validQuotes2 = 0 then Inr None
             else
               (let validQuotes3 = lengthFilters maxLength minLength validQuotes2
                in if length validQuotes3 = 0 then Inr None
                   else Inr (Some (sample rnd limit validQuotes3)))))"

subsection \<open>Notions the statements use\<close>

text \<open>A string is well formed when \<open>decodeURIComponent\<close> accepts it.\<close>

definition wellFormed :: "jsstring \<Rightarrow> bool" where
  "wellFormed s = (case decodeURIComponent s of Inl e \<Rightarrow> False | Inr d \<Rightarrow> True)"

definition withinLength :: "int option \<Rightarrow> int option \<Rightarrow> quote \<Rightarrow> bool" where
  "withinLength maxLength minLength quote =
     ((case minLength of None \<Rightarrow> True | Some mn \<Rightarrow> mn \<le> length_q quote)
      \<and> (case maxLength of None \<Rightarrow> True | Some mx \<Rightarrow> length_q quote \<le> mx))"

text \<open>A quote satisfies all the filters of a call of \<open>getQuotes\<close>, or of \<open>searchQuotes\<close>.\<close>

definition satisfiesExact ::
  "int option \<Rightarrow> int option \<Rightarrow> jsstring list option \<Rightarrow> jsstring list option \<Rightarrow> quote \<Rightarrow> bool" where
  "satisfiesExact maxLength minLength tags_arg authors quote =
     (hasMatchingAuthor quote authors = Inr True \<and> hasMatchingTags quote tags_arg
      \<and> withinLength maxLength minLength quote)"

definition satisfiesPartial ::
  "int option \<Rightarrow> int option \<Rightarrow> jsstring list option \<Rightarrow> jsstring list option \<Rightarrow> quote \<Rightarrow> bool" where
  "satisfiesPartial maxLength minLength tagTerms authorTerms quote =
     (hasPartialAuthorMatch quote authorTerms = Inr True \<and> hasPartialTagMatch quote tagTerms
      \<and> withinLength maxLength minLength quote)"

text \<open>The filtering steps of \<open>getQuotes\<close>, applied in a given order.\<close>

datatype stage = AuthorStage | TagStage | LengthStage

fun applyStage ::
  "int option \<Rightarrow> int option \<Rightarrow> jsstring list option \<Rightarrow> jsstring list option \<Rightarrow> stage
     \<Rightarrow> quote list \<Rightarrow> error + quote list" where
  "applyStage maxLength minLength tags_arg authors AuthorStage qs = authorFilter authors qs"
| "applyStage maxLength minLength tags_arg authors TagStage qs = Inr (tagFilter tags_arg qs)"
| "applyStage maxLength minLength tags_arg authors LengthStage qs =
     Inr (lengthFilters maxLength minLength qs)"

fun applyStages ::
  "int option \<Rightarrow> int option \<Rightarrow> jsstring list option \<Rightarrow> jsstring list option \<Rightarrow> stage list
     \<Rightarrow> quote list \<Rightarrow> error + quote list" where
  "applyStages maxLength minLength tags_arg authors [] qs = Inr qs"
| "applyStages maxLength minLength tags_arg authors (s # ss) qs =
     (case applyStage maxLength minLength tags_arg authors s qs of
        Inl e \<Rightarrow> Inl e
      | Inr qs1 \<Rightarrow> applyStages maxLength minLength tags_arg authors ss qs1)"

subsection \<open>Example data\<close>

definition quoteTwain :: quote where
  "quoteTwain =
     \<lparr>text_q = str ''The secret of getting ahead is getting started.'',
      author = str ''Mark Twain'', tags = [str ''wisdom'', str ''life''], length_q = 47\<rparr>"

definition quoteWilde :: quote where
  "quoteWilde =
     \<lparr>text_q = str ''Be yourself; everyone else is already taken.'',
      author = str ''Oscar Wilde'', tags = [str ''tough-love'', str ''lifestyle''], length_q = 44\<rparr>"

definition quoteFifty :: quote where
  "quoteFifty =
     \<lparr>text_q = str ''Whatever you are, be a good one, and keep going on'',
      author = str ''Abraham Lincoln'', tags = [str ''wisdom''], length_q = 50\<rparr>"

definition corpusSeven :: "quote list" where
  "corpusSeven =
     [quoteFifty, quoteTwain, quoteFifty, quoteWilde, quoteFifty, quoteFifty, quoteFifty]"

section \<open>The engine on a heap\<close>

text \<open>
  The corpus is a shared array of references to quote objects, and \<open>push\<close> and \<open>splice\<close>
  change an array in place. Here arrays and quote objects live in a heap: an array is an
  address, its elements are references to quote objects or \<open>undefined\<close> (\<open>None\<close>), and every
  array literal, spread copy and \<open>filter\<close> allocates a new array.
\<close>

record heap =
  objects :: "nat \<Rightarrow> quote"
  arrays :: "nat \<Rightarrow> nat option list option"
  next_addr :: nat

definition elems :: "heap \<Rightarrow> nat \<Rightarrow> nat option list" where
  "elems h a = (case arrays h a of None \<Rightarrow> [] | Some xs \<Rightarrow> xs)"

definition new_array :: "nat option list \<Rightarrow> heap \<Rightarrow> nat \<times> heap" where
  "new_array xs h =
     (next_addr h, h\<lparr>arrays := (arrays h)(next_addr h \<mapsto> xs), next_addr := Suc (next_addr h)\<rparr>)"

definition store_array :: "nat \<Rightarrow> nat option list \<Rightarrow> heap \<Rightarrow> heap" where
  "store_array a xs h = h\<lparr>arrays := (arrays h)(a \<mapsto> xs)\<rparr>"

text \<open>A callback reads a property of its argument, which throws on \<open>undefined\<close>.\<close>

definition on_quote :: "heap \<Rightarrow> (quote \<Rightarrow> error + bool) \<Rightarrow> nat option \<Rightarrow> error + bool" where
  "on_quote h p v = (case v of None \<Rightarrow> Inl TypeError | Some r \<Rightarrow> p (objects h r))"

definition filter_heap ::
  "(quote \<Rightarrow> error + bool) \<Rightarrow> nat \<Rightarrow> heap \<Rightarrow> (error + nat) \<times> heap" where
  "filter_heap p a h =
     (case filter_js (on_quote h p) (elems h a) of
        Inl e \<Rightarrow> (Inl e, h)
      | Inr ys \<Rightarrow> (case new_array ys h of (b, h1) \<Rightarrow> (Inr b, h1)))"

definition bind_heap ::
  "(error + 'a) \<times> heap \<Rightarrow> ('a \<Rightarrow> heap \<Rightarrow> (error + 'b) \<times> heap) \<Rightarrow> (error + 'b) \<times> heap" where
  "bind_heap m f = (case m of (Inl e, h) \<Rightarrow> (Inl e, h) | (Inr a, h) \<Rightarrow> f a h)"

function sampleLoop_heap ::
  "(nat \<Rightarrow> unit_interval) \<Rightarrow> int \<Rightarrow> int \<Rightarrow> nat \<Rightarrow> nat \<Rightarrow> heap \<Rightarrow> heap" where
  "sampleLoop_heap rnd i count_arg quotes tempQuotes h =
     (if i < count_arg then
        (let ri = randomIndex (rnd (nat i)) (length (elems h tempQuotes));
             v = (case index_js (elems h tempQuotes) ri of None \<Rightarrow> None | Some x \<Rightarrow> x);
             h1 = store_array quotes (elems h quotes @ [v]) h;
             h2 = store_array tempQuotes (splice1 (elems h1 tempQuotes) ri) h1
         in sampleLoop_heap rnd (i + 1) count_arg quotes tempQuotes h2)
      else h)"
  by pat_completeness auto
termination
  by (relation "measure (\<lambda>(rnd, i, count_arg, quotes, tempQuotes, h). nat (count_arg - i))") auto

definition sample_heap ::
  "(nat \<Rightarrow> unit_interval) \<Rightarrow> int \<Rightarrow> nat \<Rightarrow> heap \<Rightarrow> (error + nat option) \<times> heap" where
  "sample_heap rnd count_arg validQuotes h =
     (let count1 = min count_arg (int (length (elems h validQuotes)))
      in case new_array [] h of
           (quotes, h1) \<Rightarrow>
             (case new_array (elems h1 validQuotes) h1 of
                (tempQuotes, h2) \<Rightarrow>
                  (Inr (Some quotes), sampleLoop_heap rnd 0 count1 quotes tempQuotes h2)))"

definition lengthFilters_heap ::
  "int option \<Rightarrow> int option \<Rightarrow> nat \<Rightarrow> heap \<Rightarrow> (error + nat) \<times> heap" where
  "lengthFilters_heap maxLength minLength validQuotes h =
     bind_heap
       (case minLength of
          None \<Rightarrow> (Inr validQuotes, h)
        | Some mn \<Rightarrow> filter_heap (\<lambda>quote. Inr (length_q quote \<ge> mn)) validQuotes h)
       (\<lambda>validQuotes1 h1.
          case maxLength of
            None \<Rightarrow> (Inr validQuotes1, h1)
          | Some mx \<Rightarrow> filter_heap (\<lambda>quote. Inr (length_q quote \<le> mx)) validQuotes1 h1)"

text \<open>
  \<open>quotesData\<close> is the address of the corpus. The result is the outcome (an exception,
  \<open>null\<close>, or the address of the array returned) and the heap after the call.
\<close>

definition getQuotes_heap ::
  "(nat \<Rightarrow> unit_interval) \<Rightarrow> nat \<Rightarrow> int option \<Rightarrow> int option \<Rightarrow> jsstring list option \<Rightarrow> int
     \<Rightarrow> jsstring list option \<Rightarrow> heap \<Rightarrow> (error + nat option) \<times> heap" where
  "getQuotes_heap rnd quotesData maxLength minLength tags_arg count_arg authors h =
     (case new_array (elems h quotesData) h of
        (validQuotes, h0) \<Rightarrow>
          bind_heap
            (if authors \<noteq> None
             then filter_heap (\<lambda>quote. hasMatchingAuthor quote authors) validQuotes h0
             else (Inr validQuotes, h0))
            (\<lambda>validQuotes1 h1.
               bind_heap
                 (if tags_arg \<noteq> None
                  then filter_heap (\<lambda>quote. Inr (hasMatchingTags quote tags_arg)) validQuotes1 h1
                  else (Inr validQuotes1, h1))
                 (\<lambda>validQuotes2 h2.
                    if length (elems h2 validQuotes2) = 0 then (Inr None, h2)
                    else
                      bind_heap (lengthFilters_heap maxLength minLength validQuotes2 h2)
                        (\<lambda>validQuotes3 h3.
                           if length (elems h3 validQuotes3) = 0 then (Inr None, h3)
                           else sample_heap rnd count_arg validQuotes3 h3))))"

definition searchQuotes_heap ::
  "(nat \<Rightarrow> unit_interval) \<Rightarrow> nat \<Rightarrow> int option \<Rightarrow> int option \<Rightarrow> jsstring list option \<Rightarrow> int
     \<Rightarrow> jsstring list option \<Rightarrow> heap \<Rightarrow> (error + nat option) \<times> heap" where
  "searchQuotes_heap rnd quotesData maxLength minLength tagTerms limit authorTerms h =
     (case new_array (elems h quotesData) h of
        (validQuotes, h0) \<Rightarrow>
          bind_heap
            (if authorTerms \<noteq> None \<and> length (the authorTerms) > 0
             then filter_heap (\<lambda>quote. hasPartialAuthorMatch quote authorTerms) validQuotes h0
             else (Inr validQuotes, h0))
            (\<lambda>validQuotes1 h1.
               bind_heap
                 (if tagTerms \<noteq> None \<and> length (the tagTerms) > 0
                  then filter_heap (\<lambda>quote. Inr (hasPartialTagMatch quote tagTerms)) validQuotes1 h1
                  else (Inr validQuotes1, h1))
                 (\<lambda>validQuotes2 h2.
                    if length (elems h2 validQuotes2) = 0 then (Inr None, h2)
                    else
                      bind_heap (lengthFilters_heap maxLength minLength validQuotes2 h2)
                        (\<lambda>validQuotes3 h3.
                           if length (elems h3 validQuotes3) = 0 then (Inr None, h3)
                           else sample_heap rnd limit validQuotes3 h3))))"

text \<open>
  \<open>frame h h'\<close>: the quote objects and every array allocated in \<open>h\<close> are the same in \<open>h'\<close>.
\<close>

definition frame :: "heap \<Rightarrow> heap \<Rightarrow> bool" where
  "frame h h' =
     (objects h' = objects h \<and> next_addr h \<le> next_addr h'
      \<and> (\<forall>a. a < next_addr h \<longrightarrow> arrays h' a = arrays h a))"

text \<open>A heap with the corpus at address \<open>0\<close>.\<close>

definition heapTwo :: heap where
  "heapTwo =
     \<lparr>objects = (\<lambda>r. if r = 0 then quoteTwain else quoteWilde),
      arrays = Map.empty(0 \<mapsto> [Some 0, Some 1]),
      next_addr = 1\<rparr>"


text \<open>
  How the heap relates to the value-level model: \<open>holds h a qs\<close> says that the array at the
  allocated address \<open>a\<close> lists references to the quotes \<open>qs\<close>; \<open>refines_list\<close> and
  \<open>refines\<close> compare the outcome of a computation on the heap with a value-level result.
\<close>

definition holds :: "heap \<Rightarrow> nat \<Rightarrow> quote list \<Rightarrow> bool" where
  "holds h a qs =
     (a < next_addr h \<and> (\<exists>rs. elems h a = map Some rs \<and> qs = map (objects h) rs))"

definition refines_list :: "(error + nat) \<times> heap \<Rightarrow> error + quote list \<Rightarrow> bool" where
  "refines_list m r =
     (case m of
        (Inl e, h) \<Rightarrow> r = Inl e
      | (Inr a, h) \<Rightarrow> (\<exists>qs. r = Inr qs \<and> holds h a qs))"

definition refines ::
  "(error + nat option) \<times> heap \<Rightarrow> error + quote option list option \<Rightarrow> bool" where
  "refines m r =
     (case m of
        (Inl e, h) \<Rightarrow> r = Inl e
      | (Inr None, h) \<Rightarrow> r = Inr None
      | (Inr (Some a), h) \<Rightarrow> r = Inr (Some (map (map_option (objects h)) (elems h a))))"

section \<open>Auxiliary facts\<close>

declare sampleLoop.simps [simp del]

lemma includes_js_sublist: "includes_js s t = sublist t s"
  by (induction s) (auto simp: sublist_Cons_right)

lemma some_js_True_iff:
  "some_js p xs = Inr True \<longleftrightarrow>
     (\<exists>ys x zs. xs = ys @ x # zs \<and> p x = Inr True \<and> (\<forall>y \<in> set ys. \<exists>b. p y = Inr b))"
proof (induction xs)
  case Nil
  show ?case by simp
next
  case (Cons a xs)
  show ?case
  proof (cases "p a")
    case (Inl e)
    then show ?thesis by (auto simp: Cons_eq_append_conv)
  next
    case (Inr b)
    show ?thesis
    proof (cases b)
      case True
      with Inr have "a # xs = [] @ a # xs \<and> p a = Inr True \<and> (\<forall>y \<in> set []. \<exists>b. p y = Inr b)"
        by simp
      then have "\<exists>ys x zs. a # xs = ys @ x # zs \<and> p x = Inr True \<and> (\<forall>y \<in> set ys. \<exists>b. p y = Inr b)"
        by blast
      with Inr True show ?thesis by simp
    next
      case False
      have "(\<exists>ys x zs. a # xs = ys @ x # zs \<and> p x = Inr True \<and> (\<forall>y \<in> set ys. \<exists>b. p y = Inr b))
          \<longleftrightarrow> (\<exists>ys x zs. xs = ys @ x # zs \<and> p x = Inr True \<and> (\<forall>y \<in> set ys. \<exists>b. p y = Inr b))"
        (is "?L \<longleftrightarrow> ?R")
      proof
        assume ?L
        then obtain ys x zs where d: "a # xs = ys @ x # zs" "p x = Inr True"
          "\<forall>y \<in> set ys. \<exists>b. p y = Inr b" by blast
        show ?R
        proof (cases ys)
          case Nil
          with d Inr False show ?thesis by simp
        next
          case (Cons y ys')
          with d have "xs = ys' @ x # zs" "\<forall>y \<in> set ys'. \<exists>b. p y = Inr b" by simp_all
          with d(2) show ?thesis by blast
        qed
      next
        assume ?R
        then obtain ys x zs where d: "xs = ys @ x # zs" "p x = Inr True"
          "\<forall>y \<in> set ys. \<exists>b. p y = Inr b" by blast
        then have "a # xs = (a # ys) @ x # zs" "\<forall>y \<in> set (a # ys). \<exists>b. p y = Inr b"
          using Inr by simp_all
        with d(2) show ?L by blast
      qed
      with Inr False Cons.IH show ?thesis by simp
    qed
  qed
qed

lemma some_js_total:
  "(\<forall>x \<in> set xs. p x = Inr (f x)) \<Longrightarrow> some_js p xs = Inr (\<exists>x \<in> set xs. f x)"
  by (induction xs) auto

lemma every_js_True_iff:
  "every_js p xs = Inr True \<longleftrightarrow> (\<forall>x \<in> set xs. p x = Inr True)"
proof (induction xs)
  case Nil
  show ?case by simp
next
  case (Cons a xs)
  then show ?case by (cases "p a") auto
qed

lemma every_js_total:
  "(\<forall>x \<in> set xs. p x = Inr (f x)) \<Longrightarrow> every_js p xs = Inr (\<forall>x \<in> set xs. f x)"
  by (induction xs) auto

lemma filter_js_total:
  "(\<forall>x \<in> set xs. p x = Inr (f x)) \<Longrightarrow> filter_js p xs = Inr (filter f xs)"
  by (induction xs) auto

lemma filter_js_Inr:
  "filter_js p xs = Inr ys \<Longrightarrow>
     (\<forall>x \<in> set xs. \<exists>b. p x = Inr b) \<and> ys = filter (\<lambda>x. p x = Inr True) xs"
proof (induction xs arbitrary: ys)
  case Nil
  then show ?case by simp
next
  case (Cons a xs)
  then show ?case
    by (cases "p a"; cases "filter_js p xs") (auto split: if_splits)
qed

lemma filter_js_Inl:
  "filter_js p xs = Inl e \<Longrightarrow> \<exists>x \<in> set xs. p x = Inl e"
proof (induction xs)
  case Nil
  then show ?case by simp
next
  case (Cons a xs)
  then show ?case
    by (cases "p a"; cases "filter_js p xs") (auto split: if_splits)
qed

lemmas string_eval =
  str_def hexDigit_def leadingOnes_def append_result_def trim_def toLowerCase_def
  lowerUnit_def isWhiteSpace_def normalizeAuthorName_def wellFormed_def continuation_def
  utf16EncodeCodePoint_def

lemma wellFormed_iff: "wellFormed s \<longleftrightarrow> (\<exists>n. normalizeAuthorName s = Inr n)"
  by (simp add: wellFormed_def normalizeAuthorName_def split: sum.splits)

lemma randomIndex_less: "0 < n \<Longrightarrow> randomIndex r n < n"
proof -
  assume n: "0 < n"
  have r: "0 \<le> Rep_unit_interval r" "Rep_unit_interval r < 1"
    using Rep_unit_interval [of r] by simp_all
  from r n have "Rep_unit_interval r * real n < real n" by simp
  then have "\<lfloor>Rep_unit_interval r * real n\<rfloor> < int n"
    by (simp add: floor_less_iff)
  moreover from r have "0 \<le> \<lfloor>Rep_unit_interval r * real n\<rfloor>" by simp
  ultimately show ?thesis unfolding randomIndex_def by linarith
qed

lemma length_splice1: "i < length a \<Longrightarrow> length (splice1 a i) = length a - 1"
  by (simp add: splice1_def) 

lemma mset_splice1: "i < length a \<Longrightarrow> add_mset (a ! i) (mset (splice1 a i)) = mset a"
proof -
  assume i: "i < length a"
  then have "a = take i a @ a ! i # drop (Suc i) a" by (rule id_take_nth_drop)
  then have "mset a = mset (take i a @ a ! i # drop (Suc i) a)" by simp
  then show ?thesis by (simp add: splice1_def)
qed

lemma sampleLoop_length:
  "length (fst (sampleLoop rnd i c qs temp)) = length qs + nat (c - i)"
proof (induction rnd i c qs temp rule: sampleLoop.induct)
  case (1 rnd i c qs temp)
  show ?case
  proof (cases "i < c")
    case True
    with "1" show ?thesis by (subst sampleLoop.simps) (simp add: Let_def nat_diff_distrib)
  next
    case False
    then show ?thesis by (subst sampleLoop.simps) simp
  qed
qed

lemma sampleLoop_picks:
  "nat (c - i) \<le> length temp \<Longrightarrow>
     \<exists>ps. fst (sampleLoop rnd i c qs temp) = qs @ map Some ps \<and> length ps = nat (c - i)
        \<and> mset ps + mset (snd (sampleLoop rnd i c qs temp)) = mset temp"
proof (induction rnd i c qs temp rule: sampleLoop.induct)
  case (1 rnd i c qs temp)
  show ?case
  proof (cases "i < c")
    case False
    then show ?thesis by (subst (1 2) sampleLoop.simps) simp
  next
    case True
    define ri where "ri = randomIndex (rnd (nat i)) (length temp)"
    from True "1.prems" have pos: "0 < length temp" by linarith
    then have ri: "ri < length temp" unfolding ri_def by (rule randomIndex_less)
    from True "1.prems" ri have "nat (c - (i + 1)) \<le> length (splice1 temp ri)"
      by (simp add: length_splice1)
    with "1.IH" [OF True ri_def] obtain ps where
      ps: "fst (sampleLoop rnd (i + 1) c (qs @ [index_js temp ri]) (splice1 temp ri))
             = (qs @ [index_js temp ri]) @ map Some ps"
          "length ps = nat (c - (i + 1))"
          "mset ps + mset (snd (sampleLoop rnd (i + 1) c (qs @ [index_js temp ri]) (splice1 temp ri)))
             = mset (splice1 temp ri)"
      by blast
    have unf: "sampleLoop rnd i c qs temp
        = sampleLoop rnd (i + 1) c (qs @ [index_js temp ri]) (splice1 temp ri)"
      using True by (subst sampleLoop.simps) (simp add: Let_def ri_def)
    have "fst (sampleLoop rnd i c qs temp) = qs @ map Some (temp ! ri # ps)"
      using ps(1) ri by (simp add: unf index_js_def)
    moreover have "length (temp ! ri # ps) = nat (c - i)"
      using ps(2) True by simp
    moreover have "mset (temp ! ri # ps) + mset (snd (sampleLoop rnd i c qs temp)) = mset temp"
      using ps(3) mset_splice1 [OF ri] by (simp add: unf)
    ultimately show ?thesis by blast
  qed
qed

lemma sampleLoop_map:
  "sampleLoop rnd i c (map (map_option f) qs) (map f temp)
     = (map (map_option f) (fst (sampleLoop rnd i c qs temp)),
        map f (snd (sampleLoop rnd i c qs temp)))"
proof (induction rnd i c qs temp rule: sampleLoop.induct)
  case (1 rnd i c qs temp)
  show ?case
  proof (cases "i < c")
    case False
    then show ?thesis by (subst (1 2 3) sampleLoop.simps) simp
  next
    case True
    define ri where "ri = randomIndex (rnd (nat i)) (length temp)"
    have a: "index_js (map f temp) k = map_option f (index_js temp k)" for k
      by (simp add: index_js_def)
    have b: "splice1 (map f temp) k = map f (splice1 temp k)" for k
      by (simp add: splice1_def take_map drop_map)
    have unf: "sampleLoop rnd i c qs temp
        = sampleLoop rnd (i + 1) c (qs @ [index_js temp ri]) (splice1 temp ri)"
      using True by (subst sampleLoop.simps) (simp add: Let_def ri_def)
    have unf': "sampleLoop rnd i c (map (map_option f) qs) (map f temp)
        = sampleLoop rnd (i + 1) c (map (map_option f) (qs @ [index_js temp ri]))
            (map f (splice1 temp ri))"
      using True by (subst sampleLoop.simps) (simp add: Let_def ri_def a b)
    show ?thesis
      using "1.IH" [OF True ri_def] by (simp only: unf unf')
  qed
qed

lemma sampleLoop_positions:
  assumes "0 \<le> k" and "k \<le> int (length cands)"
  shows "\<exists>ps rs. fst (sampleLoop rnd 0 k [] cands) = map (\<lambda>p. Some (cands ! p)) ps
           \<and> snd (sampleLoop rnd 0 k [] cands) = map (\<lambda>p. cands ! p) rs
           \<and> distinct (ps @ rs) \<and> set (ps @ rs) = {..<length cands} \<and> length ps = nat k"
proof -
  let ?N = "length cands"
  let ?L = "sampleLoop rnd 0 k [] [0..<?N]"
  have c: "cands = map (\<lambda>p. cands ! p) [0..<?N]" by (simp add: map_nth)
  have "sampleLoop rnd 0 k (map (map_option (\<lambda>p. cands ! p)) []) (map (\<lambda>p. cands ! p) [0..<?N])
      = (map (map_option (\<lambda>p. cands ! p)) (fst ?L), map (\<lambda>p. cands ! p) (snd ?L))"
    by (rule sampleLoop_map)
  with c have m: "sampleLoop rnd 0 k [] cands
      = (map (map_option (\<lambda>p. cands ! p)) (fst ?L), map (\<lambda>p. cands ! p) (snd ?L))"
    by simp
  from assms have "nat (k - 0) \<le> length [0..<?N]" by simp
  then obtain ps where ps: "fst ?L = [] @ map Some ps" "length ps = nat (k - 0)"
      "mset ps + mset (snd ?L) = mset [0..<?N]"
    using sampleLoop_picks [of k 0 "[0..<?N]" rnd "[]"] by blast
  from ps(3) have ms: "mset (ps @ snd ?L) = mset [0..<?N]" by simp
  then have "distinct (ps @ snd ?L) = distinct [0..<?N]" by (rule mset_eq_imp_distinct_iff)
  then have d: "distinct (ps @ snd ?L)" by simp
  from ms have "set (ps @ snd ?L) = set [0..<?N]" by (rule mset_eq_setD)
  then have st: "set (ps @ snd ?L) = {..<?N}" by (simp add: atLeast0LessThan)
  have "fst (sampleLoop rnd 0 k [] cands) = map (\<lambda>p. Some (cands ! p)) ps"
    using ps(1) by (simp add: m comp_def)
  moreover have "snd (sampleLoop rnd 0 k [] cands) = map (\<lambda>p. cands ! p) (snd ?L)"
    by (simp add: m)
  ultimately show ?thesis using d st ps(2) by (intro exI [of _ ps] exI [of _ "snd ?L"]) simp
qed

lemma sample_positions:
  "\<exists>ps. sample rnd c cands = map (\<lambda>p. Some (cands ! p)) ps \<and> distinct ps
      \<and> (\<forall>p \<in> set ps. p < length cands) \<and> int (length ps) = max 0 (min c (int (length cands)))"
proof (cases "0 \<le> c")
  case True
  let ?k = "min c (int (length cands))"
  from True have "0 \<le> ?k" "?k \<le> int (length cands)" by simp_all
  from sampleLoop_positions [OF this, of rnd] obtain ps rs where
    h: "fst (sampleLoop rnd 0 ?k [] cands) = map (\<lambda>p. Some (cands ! p)) ps"
       "distinct (ps @ rs)" "set (ps @ rs) = {..<length cands}" "length ps = nat ?k"
    by blast
  from h(3) have "\<forall>p \<in> set ps. p < length cands" by auto
  moreover from h(4) True have "int (length ps) = max 0 ?k" by simp
  ultimately show ?thesis using h(1,2) by (intro exI [of _ ps]) (simp add: sample_def)
next
  case False
  then have "sample rnd c cands = []"
    by (simp add: sample_def) (subst sampleLoop.simps, simp)
  with False show ?thesis by (intro exI [of _ "[]"]) simp
qed

lemma hasPartialAuthorMatch_wellFormed:
  assumes "wellFormed (author q)" and "\<forall>t \<in> set sts. wellFormed t"
  shows "\<exists>b. hasPartialAuthorMatch q (Some sts) = Inr b"
proof (cases "sts = []")
  case True
  then show ?thesis by (auto simp: hasPartialAuthorMatch_def)
next
  case False
  from assms(1) obtain qa where qa: "normalizeAuthorName (author q) = Inr qa"
    by (auto simp: wellFormed_iff)
  have "\<forall>t \<in> set sts.
          (case normalizeAuthorName t of Inl e \<Rightarrow> Inl e | Inr nt \<Rightarrow> Inr (includes_js qa nt))
          = Inr (\<exists>nt. normalizeAuthorName t = Inr nt \<and> includes_js qa nt)"
    using assms(2) by (auto simp: wellFormed_iff)
  then have "every_js (\<lambda>t. case normalizeAuthorName t of Inl e \<Rightarrow> Inl e
                | Inr nt \<Rightarrow> Inr (includes_js qa nt)) sts
      = Inr (\<forall>t \<in> set sts. \<exists>nt. normalizeAuthorName t = Inr nt \<and> includes_js qa nt)"
    by (rule every_js_total)
  with qa False show ?thesis by (simp add: hasPartialAuthorMatch_def)
qed

lemma tagFilter_eq: "tagFilter tg qs = filter (\<lambda>q. hasMatchingTags q tg) qs"
  by (cases tg) (simp_all add: tagFilter_def hasMatchingTags_def)

lemma partialTagFilter_eq: "partialTagFilter tt qs = filter (\<lambda>q. hasPartialTagMatch q tt) qs"
  by (cases tt) (auto simp: partialTagFilter_def hasPartialTagMatch_def)

lemma lengthFilters_eq: "lengthFilters mx mn qs = filter (withinLength mx mn) qs"
  by (cases mx; cases mn) (simp_all add: lengthFilters_def withinLength_def [abs_def] conj_commute)

lemma authorFilter_Inr:
  "authorFilter au qs = Inr v \<Longrightarrow> v = filter (\<lambda>q. hasMatchingAuthor q au = Inr True) qs"
proof (cases au)
  case None
  assume "authorFilter au qs = Inr v"
  with None show ?thesis by (simp add: authorFilter_def hasMatchingAuthor_def)
next
  case (Some ras)
  assume "authorFilter au qs = Inr v"
  with Some have "filter_js (\<lambda>q. hasMatchingAuthor q au) qs = Inr v"
    by (simp add: authorFilter_def)
  then show ?thesis by (simp add: filter_js_Inr)
qed

lemma partialAuthorFilter_Inr:
  "partialAuthorFilter ats qs = Inr v \<Longrightarrow>
     v = filter (\<lambda>q. hasPartialAuthorMatch q ats = Inr True) qs"
proof (cases "ats \<noteq> None \<and> length (the ats) > 0")
  case False
  assume "partialAuthorFilter ats qs = Inr v"
  with False show ?thesis
    by (cases ats) (auto simp: partialAuthorFilter_def hasPartialAuthorMatch_def)
next
  case True
  assume "partialAuthorFilter ats qs = Inr v"
  with True have "filter_js (\<lambda>q. hasPartialAuthorMatch q ats) qs = Inr v"
    by (simp add: partialAuthorFilter_def)
  then show ?thesis by (simp add: filter_js_Inr)
qed

lemma getQuotes_unfold:
  "getQuotes rnd corpus mx mn tg c au =
     (case authorFilter au corpus of
        Inl e \<Rightarrow> Inl e
      | Inr v \<Rightarrow>
         if filter (satisfiesExact mx mn tg au) corpus = [] then Inr None
         else Inr (Some (sample rnd c (filter (satisfiesExact mx mn tg au) corpus))))"
proof (cases "authorFilter au corpus")
  case (Inl e)
  then show ?thesis by (simp add: getQuotes_def)
next
  case (Inr v)
  then have v: "v = filter (\<lambda>q. hasMatchingAuthor q au = Inr True) corpus"
    by (rule authorFilter_Inr)
  have cands: "lengthFilters mx mn (tagFilter tg v) = filter (satisfiesExact mx mn tg au) corpus"
    by (simp add: v tagFilter_eq lengthFilters_eq satisfiesExact_def [abs_def] conj_commute
        conj_left_commute)
  have early: "tagFilter tg v = [] \<Longrightarrow> filter (satisfiesExact mx mn tg au) corpus = []"
    using cands by (simp add: lengthFilters_eq)
  from Inr show ?thesis
    using early by (auto simp: getQuotes_def Let_def cands)
qed

lemma searchQuotes_unfold:
  "searchQuotes rnd corpus mx mn tt c ats =
     (case partialAuthorFilter ats corpus of
        Inl e \<Rightarrow> Inl e
      | Inr v \<Rightarrow>
         if filter (satisfiesPartial mx mn tt ats) corpus = [] then Inr None
         else Inr (Some (sample rnd c (filter (satisfiesPartial mx mn tt ats) corpus))))"
proof (cases "partialAuthorFilter ats corpus")
  case (Inl e)
  then show ?thesis by (simp add: searchQuotes_def)
next
  case (Inr v)
  then have v: "v = filter (\<lambda>q. hasPartialAuthorMatch q ats = Inr True) corpus"
    by (rule partialAuthorFilter_Inr)
  have cands: "lengthFilters mx mn (partialTagFilter tt v)
      = filter (satisfiesPartial mx mn tt ats) corpus"
    by (simp add: v partialTagFilter_eq lengthFilters_eq satisfiesPartial_def [abs_def]
        conj_commute conj_left_commute)
  have early: "partialTagFilter tt v = [] \<Longrightarrow> filter (satisfiesPartial mx mn tt ats) corpus = []"
    using cands by (simp add: lengthFilters_eq)
  from Inr show ?thesis
    using early by (auto simp: searchQuotes_def Let_def cands)
qed

lemma hasMatchingAuthor_wellFormed:
  assumes "wellFormed (author q)" and "\<forall>a \<in> set ras. wellFormed a"
  shows "hasMatchingAuthor q (Some ras) =
           Inr (\<exists>a \<in> set ras. normalizeAuthorName a = normalizeAuthorName (author q))"
proof -
  from assms(1) obtain qa where qa: "normalizeAuthorName (author q) = Inr qa"
    by (auto simp: wellFormed_iff)
  have "\<forall>a \<in> set ras.
          (case normalizeAuthorName a of Inl e \<Rightarrow> Inl e | Inr na \<Rightarrow> Inr (na = qa))
          = Inr (normalizeAuthorName a = Inr qa)"
    using assms(2) by (auto simp: wellFormed_iff)
  then have "some_js (\<lambda>a. case normalizeAuthorName a of Inl e \<Rightarrow> Inl e | Inr na \<Rightarrow> Inr (na = qa)) ras
      = Inr (\<exists>a \<in> set ras. normalizeAuthorName a = Inr qa)"
    by (rule some_js_total)
  with qa show ?thesis by (simp add: hasMatchingAuthor_def)
qed

lemma sampleLoop_step:
  "i < c \<Longrightarrow>
     sampleLoop rnd i c qs temp =
       sampleLoop rnd (i + 1) c
         (qs @ [index_js temp (randomIndex (rnd (nat i)) (length temp))])
         (splice1 temp (randomIndex (rnd (nat i)) (length temp)))"
  by (subst sampleLoop.simps) (simp add: Let_def)

lemma sampleLoop_stop: "\<not> i < c \<Longrightarrow> sampleLoop rnd i c qs temp = (qs, temp)"
  by (subst sampleLoop.simps) simp

lemma sample_unfold:
  "sample rnd c vq = fst (sampleLoop rnd 0 (min c (int (length vq))) [] vq)"
  by (simp add: sample_def)

lemmas engine_eval =
  getQuotes_def searchQuotes_def authorFilter_def tagFilter_def partialAuthorFilter_def
  partialTagFilter_def lengthFilters_def sample_unfold sampleLoop_step sampleLoop_stop
  randomIndex_def unit_zero.rep_eq unit_half.rep_eq index_js_def splice1_def
  hasMatchingAuthor_def hasMatchingTags_def hasPartialAuthorMatch_def hasPartialTagMatch_def

lemma quote_fields:
  "author quoteTwain = str ''Mark Twain''" "tags quoteTwain = [str ''wisdom'', str ''life'']"
  "length_q quoteTwain = 47"
  "author quoteWilde = str ''Oscar Wilde''"
  "tags quoteWilde = [str ''tough-love'', str ''lifestyle'']" "length_q quoteWilde = 44"
  "author quoteFifty = str ''Abraham Lincoln''" "tags quoteFifty = [str ''wisdom'']"
  "length_q quoteFifty = 50"
  by (simp_all add: quoteTwain_def quoteWilde_def quoteFifty_def)

lemma authorFilter_wellFormed:
  assumes "\<forall>ras. au = Some ras \<longrightarrow>
             (\<forall>q \<in> set qs. wellFormed (author q)) \<and> (\<forall>a \<in> set ras. wellFormed a)"
  shows "\<exists>v. authorFilter au qs = Inr v"
proof (cases au)
  case None
  then show ?thesis by (simp add: authorFilter_def)
next
  case (Some ras)
  with assms have wf: "\<forall>q \<in> set qs. wellFormed (author q)" "\<forall>a \<in> set ras. wellFormed a"
    by blast+
  have "\<forall>q \<in> set qs. hasMatchingAuthor q au =
      Inr (\<exists>a \<in> set ras. normalizeAuthorName a = normalizeAuthorName (author q))"
  proof
    fix q
    assume "q \<in> set qs"
    with wf(1) have "wellFormed (author q)" by blast
    from hasMatchingAuthor_wellFormed [OF this wf(2)] Some
    show "hasMatchingAuthor q au =
      Inr (\<exists>a \<in> set ras. normalizeAuthorName a = normalizeAuthorName (author q))"
      by simp
  qed
  then have "filter_js (\<lambda>q. hasMatchingAuthor q au) qs =
      Inr (filter (\<lambda>q. \<exists>a \<in> set ras. normalizeAuthorName a = normalizeAuthorName (author q)) qs)"
    by (rule filter_js_total)
  with Some show ?thesis by (simp add: authorFilter_def)
qed

lemma filter_js_defined:
  "\<forall>x \<in> set xs. \<exists>b. p x = Inr b \<Longrightarrow> filter_js p xs = Inr (filter (\<lambda>x. p x = Inr True) xs)"
proof -
  assume "\<forall>x \<in> set xs. \<exists>b. p x = Inr b"
  then have "\<forall>x \<in> set xs. p x = Inr (p x = Inr True)" by auto
  then show ?thesis by (rule filter_js_total)
qed

lemma partialAuthorFilter_wellFormed:
  assumes "\<forall>sts. ats = Some sts \<and> sts \<noteq> [] \<longrightarrow>
             (\<forall>q \<in> set qs. wellFormed (author q)) \<and> (\<forall>a \<in> set sts. wellFormed a)"
  shows "\<exists>v. partialAuthorFilter ats qs = Inr v"
proof (cases "ats \<noteq> None \<and> length (the ats) > 0")
  case False
  then show ?thesis by (auto simp: partialAuthorFilter_def)
next
  case True
  then obtain sts where sts: "ats = Some sts" "sts \<noteq> []" by (cases ats) simp_all
  with assms have wf: "\<forall>q \<in> set qs. wellFormed (author q)" "\<forall>a \<in> set sts. wellFormed a"
    by blast+
  have "\<forall>q \<in> set qs. \<exists>b. hasPartialAuthorMatch q ats = Inr b"
  proof
    fix q
    assume "q \<in> set qs"
    with wf(1) have w: "wellFormed (author q)" by blast
    show "\<exists>b. hasPartialAuthorMatch q ats = Inr b"
      unfolding sts(1) using w wf(2) by (rule hasPartialAuthorMatch_wellFormed)
  qed
  then have "filter_js (\<lambda>q. hasPartialAuthorMatch q ats) qs =
      Inr (filter (\<lambda>q. hasPartialAuthorMatch q ats = Inr True) qs)"
    by (rule filter_js_defined)
  with True show ?thesis by (simp add: partialAuthorFilter_def)
qed

lemma sample_nonempty: "1 \<le> c \<Longrightarrow> cands \<noteq> [] \<Longrightarrow> sample rnd c cands \<noteq> []"
proof -
  assume c: "1 \<le> c" and n: "cands \<noteq> []"
  from sample_positions [of rnd c cands] obtain ps where
    ps: "sample rnd c cands = map (\<lambda>p. Some (cands ! p)) ps"
      "int (length ps) = max 0 (min c (int (length cands)))" by blast
  from n have "1 \<le> int (length cands)" by (cases cands) simp_all
  with c ps(2) have "ps \<noteq> []" by auto
  with ps(1) show ?thesis by simp
qed

lemma sample_nonpositive: "c \<le> 0 \<Longrightarrow> sample rnd c cands = []"
proof -
  assume c: "c \<le> 0"
  from sample_positions [of rnd c cands] obtain ps where
    ps: "sample rnd c cands = map (\<lambda>p. Some (cands ! p)) ps"
      "int (length ps) = max 0 (min c (int (length cands)))" by blast
  from c ps(2) have "ps = []" by auto
  with ps(1) show ?thesis by simp
qed

lemma getQuotes_Some:
  assumes "getQuotes rnd corpus mx mn tg c au = Inr (Some qs)"
  shows "qs = sample rnd c (filter (satisfiesExact mx mn tg au) corpus)"
  using assms by (simp add: getQuotes_unfold split: sum.splits if_splits)

lemma searchQuotes_Some:
  assumes "searchQuotes rnd corpus mx mn tt c ats = Inr (Some qs)"
  shows "qs = sample rnd c (filter (satisfiesPartial mx mn tt ats) corpus)"
  using assms by (simp add: searchQuotes_unfold split: sum.splits if_splits)

lemma sampleLoop_split:
  "i \<le> k \<Longrightarrow> k \<le> c \<Longrightarrow>
     sampleLoop rnd i c qs temp =
       sampleLoop rnd k c (fst (sampleLoop rnd i k qs temp)) (snd (sampleLoop rnd i k qs temp))"
proof (induction rnd i k qs temp rule: sampleLoop.induct)
  case (1 rnd i k qs temp)
  show ?case
  proof (cases "i < k")
    case False
    with "1.prems" have "i = k" by simp
    then show ?thesis by (simp add: sampleLoop_stop)
  next
    case True
    define ri where "ri = randomIndex (rnd (nat i)) (length temp)"
    from True "1.prems" have ic: "i < c" by simp
    have a: "sampleLoop rnd i c qs temp
        = sampleLoop rnd (i + 1) c (qs @ [index_js temp ri]) (splice1 temp ri)"
      using ic by (simp add: sampleLoop_step ri_def)
    have b: "sampleLoop rnd i k qs temp
        = sampleLoop rnd (i + 1) k (qs @ [index_js temp ri]) (splice1 temp ri)"
      using True by (simp add: sampleLoop_step ri_def)
    from True have "i + 1 \<le> k" by simp
    from "1.IH" [OF True ri_def this "1.prems"(2)] show ?thesis
      by (simp only: a b)
  qed
qed

lemma authorFilter_defined:
  assumes "\<forall>q \<in> set xs. \<exists>b. hasMatchingAuthor q au = Inr b"
  shows "authorFilter au xs = Inr (filter (\<lambda>q. hasMatchingAuthor q au = Inr True) xs)"
proof (cases au)
  case None
  then show ?thesis by (simp add: authorFilter_def hasMatchingAuthor_def)
next
  case (Some ras)
  from assms have "filter_js (\<lambda>q. hasMatchingAuthor q au) xs
      = Inr (filter (\<lambda>q. hasMatchingAuthor q au = Inr True) xs)"
    by (rule filter_js_defined)
  with Some show ?thesis by (simp add: authorFilter_def)
qed

lemma authorFilter_Inr_defined:
  assumes "authorFilter au xs = Inr v"
  shows "\<forall>q \<in> set xs. \<exists>b. hasMatchingAuthor q au = Inr b"
proof (cases au)
  case None
  then show ?thesis by (auto simp: hasMatchingAuthor_def)
next
  case (Some ras)
  with assms have "filter_js (\<lambda>q. hasMatchingAuthor q au) xs = Inr v"
    by (simp add: authorFilter_def)
  from filter_js_Inr [OF this] show ?thesis by blast
qed

lemma applyStages_filter:
  assumes "\<forall>q \<in> set xs. \<exists>b. hasMatchingAuthor q au = Inr b"
  shows "applyStages mx mn tg au ord xs =
     Inr (filter (\<lambda>q. (AuthorStage \<in> set ord \<longrightarrow> hasMatchingAuthor q au = Inr True)
                    \<and> (TagStage \<in> set ord \<longrightarrow> hasMatchingTags q tg)
                    \<and> (LengthStage \<in> set ord \<longrightarrow> withinLength mx mn q)) xs)"
  using assms
proof (induction ord arbitrary: xs)
  case Nil
  then show ?case by simp
next
  case (Cons s ord)
  show ?case
  proof (cases s)
    case AuthorStage
    let ?ys = "filter (\<lambda>q. hasMatchingAuthor q au = Inr True) xs"
    from Cons.prems have a: "authorFilter au xs = Inr ?ys" by (rule authorFilter_defined)
    from Cons.prems have "\<forall>q \<in> set ?ys. \<exists>b. hasMatchingAuthor q au = Inr b" by auto
    from Cons.IH [OF this] a AuthorStage show ?thesis
      by (auto simp: intro: filter_cong)
  next
    case TagStage
    let ?ys = "filter (\<lambda>q. hasMatchingTags q tg) xs"
    from Cons.prems have "\<forall>q \<in> set ?ys. \<exists>b. hasMatchingAuthor q au = Inr b" by auto
    from Cons.IH [OF this] TagStage show ?thesis
      by (auto simp: tagFilter_eq intro: filter_cong)
  next
    case LengthStage
    let ?ys = "filter (withinLength mx mn) xs"
    from Cons.prems have "\<forall>q \<in> set ?ys. \<exists>b. hasMatchingAuthor q au = Inr b" by auto
    from Cons.IH [OF this] LengthStage show ?thesis
      by (auto simp: lengthFilters_eq intro: filter_cong)
  qed
qed

declare sampleLoop_heap.simps [simp del]

lemma frame_refl: "frame h h"
  by (simp add: frame_def)

lemma frame_trans: "frame h0 h1 \<Longrightarrow> frame h1 h2 \<Longrightarrow> frame h0 h2"
  by (auto simp: frame_def)

lemma frame_new_array: "frame h (snd (new_array xs h))"
  by (simp add: frame_def new_array_def)

lemma new_array_addr: "fst (new_array xs h) = next_addr h"
  by (simp add: new_array_def)

lemma frame_store_array:
  "frame h0 h \<Longrightarrow> next_addr h0 \<le> a \<Longrightarrow> frame h0 (store_array a xs h)"
  by (auto simp: frame_def store_array_def)

lemma frame_filter_heap: "frame h (snd (filter_heap p a h))"
  by (cases "filter_js (on_quote h p) (elems h a)")
    (simp_all add: filter_heap_def frame_refl frame_new_array split: prod.splits,
     simp add: frame_def new_array_def)

lemma frame_bind_heap:
  assumes "frame h0 (snd m)"
    and "\<And>a h. frame h0 h \<Longrightarrow> frame h0 (snd (f a h))"
  shows "frame h0 (snd (bind_heap m f))"
  using assms by (cases m; cases "fst m") (auto simp: bind_heap_def)

lemma frame_sampleLoop_heap:
  "frame h0 h \<Longrightarrow> next_addr h0 \<le> quotes \<Longrightarrow> next_addr h0 \<le> tempQuotes \<Longrightarrow>
     frame h0 (sampleLoop_heap rnd i c quotes tempQuotes h)"
proof (induction rnd i c quotes tempQuotes h rule: sampleLoop_heap.induct)
  case (1 rnd i c quotes tempQuotes h)
  show ?case
  proof (cases "i < c")
    case False
    with "1.prems" show ?thesis by (subst sampleLoop_heap.simps) simp
  next
    case True
    define ri where "ri = randomIndex (rnd (nat i)) (length (elems h tempQuotes))"
    define v where "v = (case index_js (elems h tempQuotes) ri of None \<Rightarrow> None | Some x \<Rightarrow> x)"
    define h1 where "h1 = store_array quotes (elems h quotes @ [v]) h"
    define h2 where "h2 = store_array tempQuotes (splice1 (elems h1 tempQuotes) ri) h1"
    from "1.prems" have "frame h0 h1" unfolding h1_def by (intro frame_store_array)
    with "1.prems" have "frame h0 h2" unfolding h2_def by (intro frame_store_array)
    from "1.IH" [OF True ri_def v_def h1_def h2_def this "1.prems"(2,3)]
    have "frame h0 (sampleLoop_heap rnd (i + 1) c quotes tempQuotes h2)" .
    moreover have "sampleLoop_heap rnd i c quotes tempQuotes h
        = sampleLoop_heap rnd (i + 1) c quotes tempQuotes h2"
      using True by (subst sampleLoop_heap.simps) (simp add: Let_def ri_def v_def h1_def h2_def)
    ultimately show ?thesis by simp
  qed
qed

lemma frame_sample_heap: "frame h0 h \<Longrightarrow> frame h0 (snd (sample_heap rnd c vq h))"
proof -
  assume f: "frame h0 h"
  obtain quotes h1 where n1: "new_array [] h = (quotes, h1)" by (cases "new_array [] h")
  obtain tempQuotes h2 where n2: "new_array (elems h1 vq) h1 = (tempQuotes, h2)"
    by (cases "new_array (elems h1 vq) h1")
  from n1 have q: "quotes = next_addr h" "frame h h1" "next_addr h1 = Suc (next_addr h)"
    using frame_new_array [of h "[]"] by (auto simp: new_array_def)
  from n2 have t: "tempQuotes = next_addr h1" "frame h1 h2"
    using frame_new_array [of h1 "elems h1 vq"] by (auto simp: new_array_def)
  from f q(2) t(2) have f2: "frame h0 h2" by (blast intro: frame_trans)
  from f have "next_addr h0 \<le> next_addr h" by (simp add: frame_def)
  with q t have "next_addr h0 \<le> quotes" "next_addr h0 \<le> tempQuotes" by simp_all
  with f2 have "frame h0 (sampleLoop_heap rnd 0 (min c (int (length (elems h vq)))) quotes
      tempQuotes h2)"
    by (intro frame_sampleLoop_heap)
  with n1 n2 show ?thesis by (simp add: sample_heap_def)
qed

lemma frame_filter_heap_from: "frame h0 h \<Longrightarrow> frame h0 (snd (filter_heap p a h))"
  using frame_filter_heap frame_trans by blast

lemma frame_lengthFilters_heap:
  "frame h0 h \<Longrightarrow> frame h0 (snd (lengthFilters_heap mx mn vq h))"
  unfolding lengthFilters_heap_def
  by (intro frame_bind_heap) (auto simp: frame_filter_heap_from split: option.splits)

lemma frame_getQuotes_heap: "frame h (snd (getQuotes_heap rnd qd mx mn tg c au h))"
proof -
  obtain vq h0 where n: "new_array (elems h qd) h = (vq, h0)"
    by (cases "new_array (elems h qd) h")
  then have f0: "frame h h0" using frame_new_array [of h "elems h qd"] by simp
  show ?thesis
    unfolding getQuotes_heap_def n prod.case
    by (intro frame_bind_heap)
      (auto simp: f0 frame_filter_heap_from frame_sample_heap
        intro!: frame_bind_heap frame_lengthFilters_heap)
qed

lemma frame_searchQuotes_heap: "frame h (snd (searchQuotes_heap rnd qd mx mn tt c ats h))"
proof -
  obtain vq h0 where n: "new_array (elems h qd) h = (vq, h0)"
    by (cases "new_array (elems h qd) h")
  then have f0: "frame h h0" using frame_new_array [of h "elems h qd"] by simp
  show ?thesis
    unfolding searchQuotes_heap_def n prod.case
    by (intro frame_bind_heap)
      (auto simp: f0 frame_filter_heap_from frame_sample_heap
        intro!: frame_bind_heap frame_lengthFilters_heap)
qed

lemma filter_js_map:
  "filter_js p (map f xs) =
     (case filter_js (\<lambda>x. p (f x)) xs of Inl e \<Rightarrow> Inl e | Inr ys \<Rightarrow> Inr (map f ys))"
proof (induction xs)
  case Nil
  show ?case by simp
next
  case (Cons x xs)
  then show ?case
    by (cases "p (f x)"; cases "filter_js (\<lambda>x. p (f x)) xs") simp_all
qed

lemma holds_length: "holds h a qs \<Longrightarrow> length (elems h a) = length qs"
  by (auto simp: holds_def)

lemma holds_new_array:
  assumes "new_array (map Some rs) h = (b, h1)"
  shows "holds h1 b (map (objects h) rs)"
  using assms by (auto simp: new_array_def holds_def elems_def)

lemma filter_heap_refines:
  assumes "holds h a qs"
  shows "refines_list (filter_heap p a h) (filter_js p qs)"
proof -
  from assms obtain rs where rs: "elems h a = map Some rs" "qs = map (objects h) rs"
    by (auto simp: holds_def)
  have l: "filter_js (on_quote h p) (map Some rs) =
      (case filter_js (\<lambda>r. p (objects h r)) rs of Inl e \<Rightarrow> Inl e | Inr ys \<Rightarrow> Inr (map Some ys))"
    by (simp add: filter_js_map on_quote_def)
  have r: "filter_js p qs =
      (case filter_js (\<lambda>r. p (objects h r)) rs of Inl e \<Rightarrow> Inl e
       | Inr ys \<Rightarrow> Inr (map (objects h) ys))"
    by (simp add: rs(2) filter_js_map)
  show ?thesis
  proof (cases "filter_js (\<lambda>r. p (objects h r)) rs")
    case (Inl e)
    with l r rs(1) show ?thesis by (simp add: filter_heap_def refines_list_def)
  next
    case (Inr ys)
    obtain b h1 where n: "new_array (map Some ys) h = (b, h1)"
      by (cases "new_array (map Some ys) h")
    then have "holds h1 b (map (objects h) ys)" by (rule holds_new_array)
    with Inr l r rs(1) n show ?thesis by (simp add: filter_heap_def refines_list_def)
  qed
qed

lemma authorStage_refines:
  assumes "holds h vq qs"
  shows "refines_list
           (if au \<noteq> None then filter_heap (\<lambda>quote. hasMatchingAuthor quote au) vq h
            else (Inr vq, h))
           (authorFilter au qs)"
  using assms filter_heap_refines [OF assms, of "\<lambda>quote. hasMatchingAuthor quote au"]
  by (simp add: authorFilter_def refines_list_def)

lemma filter_js_pure: "filter_js (\<lambda>x. Inr (P x)) xs = Inr (filter P xs)"
  by (rule filter_js_total) simp

lemma tagStage_refines:
  assumes "holds h vq qs"
  shows "refines_list
           (if tg \<noteq> None then filter_heap (\<lambda>quote. Inr (hasMatchingTags quote tg)) vq h
            else (Inr vq, h))
           (Inr (tagFilter tg qs))"
  using assms filter_heap_refines [OF assms, of "\<lambda>quote. Inr (hasMatchingTags quote tg)"]
  by (simp add: tagFilter_def refines_list_def filter_js_pure)

lemma partialAuthorStage_refines:
  assumes "holds h vq qs"
  shows "refines_list
           (if ats \<noteq> None \<and> length (the ats) > 0
            then filter_heap (\<lambda>quote. hasPartialAuthorMatch quote ats) vq h
            else (Inr vq, h))
           (partialAuthorFilter ats qs)"
  using assms filter_heap_refines [OF assms, of "\<lambda>quote. hasPartialAuthorMatch quote ats"]
  by (simp add: partialAuthorFilter_def refines_list_def)

lemma partialTagStage_refines:
  assumes "holds h vq qs"
  shows "refines_list
           (if tt \<noteq> None \<and> length (the tt) > 0
            then filter_heap (\<lambda>quote. Inr (hasPartialTagMatch quote tt)) vq h
            else (Inr vq, h))
           (Inr (partialTagFilter tt qs))"
  using assms filter_heap_refines [OF assms, of "\<lambda>quote. Inr (hasPartialTagMatch quote tt)"]
  by (simp add: partialTagFilter_def refines_list_def filter_js_pure)

lemma lengthFilters_heap_refines:
  assumes "holds h vq qs"
  shows "refines_list (lengthFilters_heap mx mn vq h) (Inr (lengthFilters mx mn qs))"
proof -
  let ?m1 = "case mn of None \<Rightarrow> (Inr vq, h)
             | Some n \<Rightarrow> filter_heap (\<lambda>quote. Inr (length_q quote \<ge> n)) vq h"
  let ?q1 = "case mn of None \<Rightarrow> qs | Some n \<Rightarrow> filter (\<lambda>quote. length_q quote \<ge> n) qs"
  have "refines_list ?m1 (Inr ?q1)"
  proof (cases mn)
    case None
    with assms show ?thesis by (simp add: refines_list_def)
  next
    case (Some n)
    with filter_heap_refines [OF assms, of "\<lambda>quote. Inr (length_q quote \<ge> n)"]
    show ?thesis by (simp add: filter_js_pure)
  qed
  then obtain vq1 h1 where m1: "?m1 = (Inr vq1, h1)" and h1: "holds h1 vq1 ?q1"
    by (cases ?m1; cases "fst ?m1") (auto simp: refines_list_def)
  have "refines_list
      (case mx of None \<Rightarrow> (Inr vq1, h1)
       | Some x \<Rightarrow> filter_heap (\<lambda>quote. Inr (length_q quote \<le> x)) vq1 h1)
      (Inr (case mx of None \<Rightarrow> ?q1 | Some x \<Rightarrow> filter (\<lambda>quote. length_q quote \<le> x) ?q1))"
  proof (cases mx)
    case None
    with h1 show ?thesis by (simp add: refines_list_def)
  next
    case (Some x)
    with filter_heap_refines [OF h1, of "\<lambda>quote. Inr (length_q quote \<le> x)"]
    show ?thesis by (simp add: filter_js_pure)
  qed
  then show ?thesis
    by (simp add: lengthFilters_heap_def lengthFilters_def bind_heap_def m1 Let_def)
qed

lemma elems_store_array:
  "elems (store_array a xs h) b = (if b = a then xs else elems h b)"
  by (simp add: elems_def store_array_def)

lemma objects_sampleLoop_heap:
  "objects (sampleLoop_heap rnd i c quotes tempQuotes h) = objects h"
proof (induction rnd i c quotes tempQuotes h rule: sampleLoop_heap.induct)
  case (1 rnd i c quotes tempQuotes h)
  show ?case
  proof (cases "i < c")
    case False
    then show ?thesis by (subst sampleLoop_heap.simps) simp
  next
    case True
    define ri where "ri = randomIndex (rnd (nat i)) (length (elems h tempQuotes))"
    define v where "v = (case index_js (elems h tempQuotes) ri of None \<Rightarrow> None | Some x \<Rightarrow> x)"
    define h1 where "h1 = store_array quotes (elems h quotes @ [v]) h"
    define h2 where "h2 = store_array tempQuotes (splice1 (elems h1 tempQuotes) ri) h1"
    have "sampleLoop_heap rnd i c quotes tempQuotes h
        = sampleLoop_heap rnd (i + 1) c quotes tempQuotes h2"
      using True by (subst sampleLoop_heap.simps) (simp add: Let_def ri_def v_def h1_def h2_def)
    moreover have "objects h2 = objects h" by (simp add: h2_def h1_def store_array_def)
    ultimately show ?thesis using "1.IH" [OF True ri_def v_def h1_def h2_def] by simp
  qed
qed

lemma sampleLoop_heap_refines:
  "quotes \<noteq> tempQuotes \<Longrightarrow>
     map (\<lambda>x. case x of None \<Rightarrow> None | Some y \<Rightarrow> y) acc = elems h quotes \<Longrightarrow>
     elems (sampleLoop_heap rnd i c quotes tempQuotes h) quotes
       = map (\<lambda>x. case x of None \<Rightarrow> None | Some y \<Rightarrow> y)
           (fst (sampleLoop rnd i c acc (elems h tempQuotes)))"
proof (induction rnd i c quotes tempQuotes h arbitrary: acc rule: sampleLoop_heap.induct)
  case (1 rnd i c quotes tempQuotes h)
  show ?case
  proof (cases "i < c")
    case False
    with "1.prems" show ?thesis
      by (subst sampleLoop_heap.simps) (simp add: sampleLoop_stop)
  next
    case True
    define ri where "ri = randomIndex (rnd (nat i)) (length (elems h tempQuotes))"
    define v where "v = (case index_js (elems h tempQuotes) ri of None \<Rightarrow> None | Some x \<Rightarrow> x)"
    define h1 where "h1 = store_array quotes (elems h quotes @ [v]) h"
    define h2 where "h2 = store_array tempQuotes (splice1 (elems h1 tempQuotes) ri) h1"
    have u: "sampleLoop_heap rnd i c quotes tempQuotes h
        = sampleLoop_heap rnd (i + 1) c quotes tempQuotes h2"
      using True by (subst sampleLoop_heap.simps) (simp add: Let_def ri_def v_def h1_def h2_def)
    have q2: "elems h2 quotes = elems h quotes @ [v]"
      using "1.prems"(1) by (simp add: h2_def h1_def elems_store_array)
    have t2: "elems h2 tempQuotes = splice1 (elems h tempQuotes) ri"
      using "1.prems"(1) by (simp add: h2_def h1_def elems_store_array)
    have acc: "map (\<lambda>x. case x of None \<Rightarrow> None | Some y \<Rightarrow> y)
                 (acc @ [index_js (elems h tempQuotes) ri]) = elems h2 quotes"
      using "1.prems"(2) by (simp add: q2 v_def)
    have p: "sampleLoop rnd i c acc (elems h tempQuotes)
        = sampleLoop rnd (i + 1) c (acc @ [index_js (elems h tempQuotes) ri])
            (splice1 (elems h tempQuotes) ri)"
      using True by (simp add: sampleLoop_step ri_def)
    from "1.IH" [OF True ri_def v_def h1_def h2_def "1.prems"(1) acc]
    show ?thesis by (simp only: u p t2)
  qed
qed

lemma map_join_map_Some:
  "map (\<lambda>x. case x of None \<Rightarrow> None | Some y \<Rightarrow> y) (map (map_option Some) xs) = xs"
  by (induction xs) (auto split: option.splits)

lemma sample_heap_refines:
  assumes "holds h vq qs"
  shows "refines (sample_heap rnd c vq h) (Inr (Some (sample rnd c qs)))"
proof -
  let ?join = "\<lambda>x :: nat option option. case x of None \<Rightarrow> None | Some y \<Rightarrow> y"
  from assms obtain rs where rs: "elems h vq = map Some rs" "qs = map (objects h) rs"
    and al: "vq < next_addr h"
    by (auto simp: holds_def)
  let ?k = "min c (int (length rs))"
  obtain quotes h1 where n1: "new_array [] h = (quotes, h1)" by (cases "new_array [] h")
  obtain tempQuotes h2 where n2: "new_array (elems h1 vq) h1 = (tempQuotes, h2)"
    by (cases "new_array (elems h1 vq) h1")
  from n1 al have e1: "elems h1 vq = map Some rs" "quotes = next_addr h"
    "next_addr h1 = Suc (next_addr h)" "objects h1 = objects h" "elems h1 quotes = []"
    using rs(1) by (auto simp: new_array_def elems_def)
  from n2 e1 have e2: "elems h2 tempQuotes = map Some rs" "tempQuotes = Suc quotes"
    "objects h2 = objects h" "elems h2 quotes = []"
    by (auto simp: new_array_def elems_def)
  let ?h3 = "sampleLoop_heap rnd 0 ?k quotes tempQuotes h2"
  from e2(2) have ne: "quotes \<noteq> tempQuotes" by simp
  have "map ?join [] = elems h2 quotes" by (simp add: e2(4))
  from sampleLoop_heap_refines [OF ne this, of rnd 0 ?k]
  have "elems ?h3 quotes = map ?join (fst (sampleLoop rnd 0 ?k [] (map Some rs)))"
    by (simp add: e2(1))
  also have "sampleLoop rnd 0 ?k [] (map Some rs)
      = (map (map_option Some) (fst (sampleLoop rnd 0 ?k [] rs)),
         map Some (snd (sampleLoop rnd 0 ?k [] rs)))"
    using sampleLoop_map [of rnd 0 ?k Some "[]" rs] by simp
  finally have q: "elems ?h3 quotes = fst (sampleLoop rnd 0 ?k [] rs)"
    by (simp only: fst_conv map_join_map_Some)
  have o: "objects ?h3 = objects h" by (simp add: objects_sampleLoop_heap e2(3))
  have "sample rnd c qs = fst (sampleLoop rnd 0 ?k [] (map (objects h) rs))"
    by (simp add: sample_unfold rs(2))
  also have "sampleLoop rnd 0 ?k [] (map (objects h) rs)
      = (map (map_option (objects h)) (fst (sampleLoop rnd 0 ?k [] rs)),
         map (objects h) (snd (sampleLoop rnd 0 ?k [] rs)))"
    using sampleLoop_map [of rnd 0 ?k "objects h" "[]" rs] by simp
  finally have "sample rnd c qs = map (map_option (objects ?h3)) (elems ?h3 quotes)"
    by (simp add: q o)
  with n1 n2 show ?thesis
    by (simp add: sample_heap_def refines_def rs(1))
qed

lemma getQuotes_heap_refines:
  assumes "holds h qd corpus"
  shows "refines (getQuotes_heap rnd qd mx mn tg c au h) (getQuotes rnd corpus mx mn tg c au)"
proof -
  from assms obtain rs where rs: "elems h qd = map Some rs" "corpus = map (objects h) rs"
    by (auto simp: holds_def)
  obtain vq h0 where n: "new_array (elems h qd) h = (vq, h0)"
    by (cases "new_array (elems h qd) h")
  with rs have h0: "holds h0 vq corpus" by (simp add: holds_new_array)
  let ?m1 = "if au \<noteq> None then filter_heap (\<lambda>quote. hasMatchingAuthor quote au) vq h0
             else (Inr vq, h0)"
  have r1: "refines_list ?m1 (authorFilter au corpus)" using h0 by (rule authorStage_refines)
  show ?thesis
  proof (cases "authorFilter au corpus")
    case (Inl e)
    with r1 obtain h1 where "?m1 = (Inl e, h1)"
      by (cases ?m1; cases "fst ?m1") (auto simp: refines_list_def)
    with Inl n show ?thesis
      by (simp add: getQuotes_heap_def getQuotes_def bind_heap_def refines_def)
  next
    case (Inr v1)
    with r1 obtain vq1 h1 where m1: "?m1 = (Inr vq1, h1)" and h1: "holds h1 vq1 v1"
      by (cases ?m1; cases "fst ?m1") (auto simp: refines_list_def)
    let ?m2 = "if tg \<noteq> None then filter_heap (\<lambda>quote. Inr (hasMatchingTags quote tg)) vq1 h1
               else (Inr vq1, h1)"
    have "refines_list ?m2 (Inr (tagFilter tg v1))" using h1 by (rule tagStage_refines)
    then obtain vq2 h2 where m2: "?m2 = (Inr vq2, h2)" and h2: "holds h2 vq2 (tagFilter tg v1)"
      by (cases ?m2; cases "fst ?m2") (auto simp: refines_list_def)
    have l2: "length (elems h2 vq2) = length (tagFilter tg v1)" using h2 by (rule holds_length)
    have "refines_list (lengthFilters_heap mx mn vq2 h2)
        (Inr (lengthFilters mx mn (tagFilter tg v1)))"
      using h2 by (rule lengthFilters_heap_refines)
    then obtain vq3 h3 where m3: "lengthFilters_heap mx mn vq2 h2 = (Inr vq3, h3)"
      and h3: "holds h3 vq3 (lengthFilters mx mn (tagFilter tg v1))"
      by (cases "lengthFilters_heap mx mn vq2 h2"; cases "fst (lengthFilters_heap mx mn vq2 h2)")
        (auto simp: refines_list_def)
    have l3: "length (elems h3 vq3) = length (lengthFilters mx mn (tagFilter tg v1))"
      using h3 by (rule holds_length)
    have s: "refines (sample_heap rnd c vq3 h3)
        (Inr (Some (sample rnd c (lengthFilters mx mn (tagFilter tg v1)))))"
      using h3 by (rule sample_heap_refines)
    have hp: "getQuotes_heap rnd qd mx mn tg c au h =
        (if length (tagFilter tg v1) = 0 then (Inr None, h2)
         else if length (lengthFilters mx mn (tagFilter tg v1)) = 0 then (Inr None, h3)
         else sample_heap rnd c vq3 h3)"
      unfolding getQuotes_heap_def n prod.case m1 bind_heap_def sum.case m2 m3 l2 l3 ..
    have pp: "getQuotes rnd corpus mx mn tg c au =
        (if length (tagFilter tg v1) = 0 then Inr None
         else if length (lengthFilters mx mn (tagFilter tg v1)) = 0 then Inr None
         else Inr (Some (sample rnd c (lengthFilters mx mn (tagFilter tg v1)))))"
      by (simp add: getQuotes_def Inr Let_def)
    show ?thesis
      unfolding hp pp using s by (simp add: refines_def)
  qed
qed

lemma searchQuotes_heap_refines:
  assumes "holds h qd corpus"
  shows "refines (searchQuotes_heap rnd qd mx mn tt c ats h)
           (searchQuotes rnd corpus mx mn tt c ats)"
proof -
  from assms obtain rs where rs: "elems h qd = map Some rs" "corpus = map (objects h) rs"
    by (auto simp: holds_def)
  obtain vq h0 where n: "new_array (elems h qd) h = (vq, h0)"
    by (cases "new_array (elems h qd) h")
  with rs have h0: "holds h0 vq corpus" by (simp add: holds_new_array)
  let ?m1 = "if ats \<noteq> None \<and> length (the ats) > 0
             then filter_heap (\<lambda>quote. hasPartialAuthorMatch quote ats) vq h0
             else (Inr vq, h0)"
  have r1: "refines_list ?m1 (partialAuthorFilter ats corpus)"
    using h0 by (rule partialAuthorStage_refines)
  show ?thesis
  proof (cases "partialAuthorFilter ats corpus")
    case (Inl e)
    with r1 obtain h1 where "?m1 = (Inl e, h1)"
      by (cases ?m1; cases "fst ?m1") (auto simp: refines_list_def)
    with Inl n show ?thesis
      by (simp add: searchQuotes_heap_def searchQuotes_def bind_heap_def refines_def)
  next
    case (Inr v1)
    with r1 obtain vq1 h1 where m1: "?m1 = (Inr vq1, h1)" and h1: "holds h1 vq1 v1"
      by (cases ?m1; cases "fst ?m1") (auto simp: refines_list_def)
    let ?m2 = "if tt \<noteq> None \<and> length (the tt) > 0
               then filter_heap (\<lambda>quote. Inr (hasPartialTagMatch quote tt)) vq1 h1
               else (Inr vq1, h1)"
    have "refines_list ?m2 (Inr (partialTagFilter tt v1))"
      using h1 by (rule partialTagStage_refines)
    then obtain vq2 h2 where m2: "?m2 = (Inr vq2, h2)"
      and h2: "holds h2 vq2 (partialTagFilter tt v1)"
      by (cases ?m2; cases "fst ?m2") (auto simp: refines_list_def)
    have l2: "length (elems h2 vq2) = length (partialTagFilter tt v1)"
      using h2 by (rule holds_length)
    have "refines_list (lengthFilters_heap mx mn vq2 h2)
        (Inr (lengthFilters mx mn (partialTagFilter tt v1)))"
      using h2 by (rule lengthFilters_heap_refines)
    then obtain vq3 h3 where m3: "lengthFilters_heap mx mn vq2 h2 = (Inr vq3, h3)"
      and h3: "holds h3 vq3 (lengthFilters mx mn (partialTagFilter tt v1))"
      by (cases "lengthFilters_heap mx mn vq2 h2"; cases "fst (lengthFilters_heap mx mn vq2 h2)")
        (auto simp: refines_list_def)
    have l3: "length (elems h3 vq3) = length (lengthFilters mx mn (partialTagFilter tt v1))"
      using h3 by (rule holds_length)
    have s: "refines (sample_heap rnd c vq3 h3)
        (Inr (Some (sample rnd c (lengthFilters mx mn (partialTagFilter tt v1)))))"
      using h3 by (rule sample_heap_refines)
    have hp: "searchQuotes_heap rnd qd mx mn tt c ats h =
        (if length (partialTagFilter tt v1) = 0 then (Inr None, h2)
         else if length (lengthFilters mx mn (partialTagFilter tt v1)) = 0 then (Inr None, h3)
         else sample_heap rnd c vq3 h3)"
      unfolding searchQuotes_heap_def n prod.case m1 bind_heap_def sum.case m2 m3 l2 l3 ..
    have pp: "searchQuotes rnd corpus mx mn tt c ats =
        (if length (partialTagFilter tt v1) = 0 then Inr None
         else if length (lengthFilters mx mn (partialTagFilter tt v1)) = 0 then Inr None
         else Inr (Some (sample rnd c (lengthFilters mx mn (partialTagFilter tt v1)))))"
      by (simp add: searchQuotes_def Inr Let_def)
    show ?thesis
      unfolding hp pp using s by (simp add: refines_def)
  qed
qed

lemma sampleLoop_heap_step:
  "i < c \<Longrightarrow>
     sampleLoop_heap rnd i c quotes tempQuotes h =
       sampleLoop_heap rnd (i + 1) c quotes tempQuotes
         (store_array tempQuotes
            (splice1
               (elems
                  (store_array quotes
                     (elems h quotes @
                      [case index_js (elems h tempQuotes)
                              (randomIndex (rnd (nat i)) (length (elems h tempQuotes))) of
                         None \<Rightarrow> None | Some x \<Rightarrow> x]) h)
                  tempQuotes)
               (randomIndex (rnd (nat i)) (length (elems h tempQuotes))))
            (store_array quotes
               (elems h quotes @
                [case index_js (elems h tempQuotes)
                        (randomIndex (rnd (nat i)) (length (elems h tempQuotes))) of
                   None \<Rightarrow> None | Some x \<Rightarrow> x]) h))"
  by (subst sampleLoop_heap.simps) (simp add: Let_def)

lemma sampleLoop_heap_stop: "\<not> i < c \<Longrightarrow> sampleLoop_heap rnd i c quotes tempQuotes h = h"
  by (subst sampleLoop_heap.simps) simp

lemmas heap_eval =
  getQuotes_heap_def searchQuotes_heap_def bind_heap_def lengthFilters_heap_def
  sample_heap_def filter_heap_def on_quote_def new_array_def elems_def store_array_def
  sampleLoop_heap_step sampleLoop_heap_stop randomIndex_def unit_zero.rep_eq unit_half.rep_eq
  index_js_def splice1_def

section \<open>The claims\<close>


text \<open>
  C2, as amended. \<open>hasMatchingAuthor\<close> returns true exactly when the quote's author is well
  formed and some requested author has the same normalized form, every requested author
  listed before that one being well formed; and when the quote's author and all the
  requested authors are well formed, it returns whether some requested author has the
  quote author's normalized form.
\<close>

theorem hasMatchingAuthor_any_requested:
  "(hasMatchingAuthor q (Some ras) = Inr True \<longleftrightarrow>
      (\<exists>qa ys a zs. normalizeAuthorName (author q) = Inr qa \<and> ras = ys @ a # zs
          \<and> normalizeAuthorName a = Inr qa \<and> (\<forall>y \<in> set ys. wellFormed y)))
   \<and> (wellFormed (author q) \<and> (\<forall>a \<in> set ras. wellFormed a) \<longrightarrow>
        hasMatchingAuthor q (Some ras) =
          Inr (\<exists>a \<in> set ras. normalizeAuthorName a = normalizeAuthorName (author q)))"
proof (intro conjI impI)
  show "hasMatchingAuthor q (Some ras) = Inr True \<longleftrightarrow>
      (\<exists>qa ys a zs. normalizeAuthorName (author q) = Inr qa \<and> ras = ys @ a # zs
          \<and> normalizeAuthorName a = Inr qa \<and> (\<forall>y \<in> set ys. wellFormed y))"
  proof (cases "normalizeAuthorName (author q)")
    case (Inl e)
    then show ?thesis by (simp add: hasMatchingAuthor_def)
  next
    case (Inr qa)
    let ?p = "\<lambda>a. case normalizeAuthorName a of Inl e \<Rightarrow> Inl e | Inr na \<Rightarrow> Inr (na = qa)"
    have t: "?p a = Inr True \<longleftrightarrow> normalizeAuthorName a = Inr qa" for a
      by (cases "normalizeAuthorName a") auto
    have w: "(\<exists>b. ?p a = Inr b) \<longleftrightarrow> wellFormed a" for a
      by (cases "normalizeAuthorName a") (auto simp: wellFormed_iff)
    from Inr show ?thesis
      by (simp add: hasMatchingAuthor_def some_js_True_iff t w)
  qed
next
  assume "wellFormed (author q) \<and> (\<forall>a \<in> set ras. wellFormed a)"
  then show "hasMatchingAuthor q (Some ras) =
          Inr (\<exists>a \<in> set ras. normalizeAuthorName a = normalizeAuthorName (author q))"
    by (simp add: hasMatchingAuthor_wellFormed)
qed

theorem hasMatchingAuthor_any_requested_witness:
  "wellFormed (author quoteTwain) \<and> wellFormed (str ''mark%20twain'')
   \<and> wellFormed (str ''Oscar Wilde'')
   \<and> hasMatchingAuthor quoteTwain (Some [str ''mark%20twain'']) = Inr True
   \<and> hasMatchingAuthor quoteTwain (Some [str ''Oscar Wilde'', str ''mark%20twain'']) = Inr True
   \<and> hasMatchingAuthor quoteTwain (Some [str ''Oscar Wilde'']) = Inr False"
  using hasMatchingAuthor_any_requested [of quoteTwain "[str ''mark%20twain'']"]
    hasMatchingAuthor_any_requested [of quoteTwain "[str ''Oscar Wilde'', str ''mark%20twain'']"]
    hasMatchingAuthor_any_requested [of quoteTwain "[str ''Oscar Wilde'']"]
  by (simp add: quoteTwain_def string_eval)

text \<open>
  C2 as stated fails where a malformed requested author precedes the match: the call throws,
  although the quote's normalized author equals the normalized form of a requested author.
\<close>

theorem hasMatchingAuthor_malformed_counterexample:
  "hasMatchingAuthor quoteTwain (Some [str ''%'', str ''Mark Twain'']) = Inl URIError
   \<and> normalizeAuthorName (author quoteTwain) = Inr (str ''mark twain'')
   \<and> normalizeAuthorName (str ''Mark Twain'') = Inr (str ''mark twain'')"
  by (simp add: quoteTwain_def string_eval hasMatchingAuthor_def)

text \<open>
  C3. For every quote and every list of requested tags (the empty one too),
  \<open>hasMatchingTags\<close> returns true exactly when every requested tag is a member of the
  quote's tag set. Membership is equality of the stored strings, code unit by code unit, so
  it is case-sensitive.
\<close>

theorem hasMatchingTags_all_present:
  "hasMatchingTags q (Some rts) = (\<forall>t \<in> set rts. t \<in> set (tags q))"
  by (simp add: hasMatchingTags_def list_all_iff)

theorem hasMatchingTags_all_present_witness:
  "hasMatchingTags quoteTwain (Some [str ''wisdom''])
   \<and> hasMatchingTags quoteTwain (Some [str ''wisdom'', str ''life''])
   \<and> \<not> hasMatchingTags quoteTwain (Some [str ''wisdom'', str ''humor''])
   \<and> \<not> hasMatchingTags quoteTwain (Some [str ''Wisdom''])"
  using hasMatchingTags_all_present [of quoteTwain "[str ''wisdom'']"]
    hasMatchingTags_all_present [of quoteTwain "[str ''wisdom'', str ''life'']"]
    hasMatchingTags_all_present [of quoteTwain "[str ''wisdom'', str ''humor'']"]
    hasMatchingTags_all_present [of quoteTwain "[str ''Wisdom'']"]
  by (simp add: quoteTwain_def str_def)

text \<open>
  C4. \<open>hasPartialTagMatch\<close> is true exactly when every term, lowercased, occurs as a
  contiguous run in at least one lowercased tag of the quote; \<open>hasPartialAuthorMatch\<close>
  returns true exactly when every term, normalized, occurs as a contiguous run in the
  normalized author name.
\<close>

theorem partial_predicates:
  "hasPartialTagMatch q (Some tts) =
     (\<forall>term \<in> set tts. \<exists>tag \<in> set (tags q). sublist (toLowerCase term) (toLowerCase tag))
   \<and> (hasPartialAuthorMatch q (Some sts) = Inr True \<longleftrightarrow>
        (\<forall>term \<in> set sts. \<exists>qa nt. normalizeAuthorName (author q) = Inr qa
            \<and> normalizeAuthorName term = Inr nt \<and> sublist nt qa))"
proof
  show "hasPartialTagMatch q (Some tts) =
     (\<forall>term \<in> set tts. \<exists>tag \<in> set (tags q). sublist (toLowerCase term) (toLowerCase tag))"
    by (cases tts) (simp_all add: hasPartialTagMatch_def list_all_iff list_ex_iff includes_js_sublist)
next
  show "hasPartialAuthorMatch q (Some sts) = Inr True \<longleftrightarrow>
        (\<forall>term \<in> set sts. \<exists>qa nt. normalizeAuthorName (author q) = Inr qa
            \<and> normalizeAuthorName term = Inr nt \<and> sublist nt qa)"
  proof (cases "sts = []")
    case True
    then show ?thesis by (simp add: hasPartialAuthorMatch_def)
  next
    case False
    then obtain t0 where t0: "t0 \<in> set sts" by (cases sts) auto
    show ?thesis
    proof (cases "normalizeAuthorName (author q)")
      case (Inl e)
      with False t0 show ?thesis by (auto simp: hasPartialAuthorMatch_def)
    next
      case (Inr qa)
      have step: "(case normalizeAuthorName t of Inl e \<Rightarrow> Inl e
                   | Inr nt \<Rightarrow> Inr (includes_js qa nt)) = Inr True
                 \<longleftrightarrow> (\<exists>nt. normalizeAuthorName t = Inr nt \<and> sublist nt qa)" for t
        by (cases "normalizeAuthorName t") (simp_all add: includes_js_sublist)
      from False Inr show ?thesis
        by (simp add: hasPartialAuthorMatch_def every_js_True_iff step)
    qed
  qed
qed

theorem partial_predicates_witness:
  "hasPartialTagMatch quoteWilde (Some [str ''love'', str ''LIFE''])
   \<and> \<not> hasPartialTagMatch quoteWilde (Some [str ''love'', str ''humor''])
   \<and> hasPartialAuthorMatch quoteWilde (Some [str ''WILD'', str ''os%63ar'']) = Inr True
   \<and> hasPartialAuthorMatch quoteWilde (Some [str ''oscar'', str ''twain'']) \<noteq> Inr True"
  using partial_predicates [of quoteWilde "[str ''love'', str ''LIFE'']" "[str ''WILD'', str ''os%63ar'']"]
    partial_predicates [of quoteWilde "[str ''love'', str ''humor'']" "[str ''oscar'', str ''twain'']"]
  by (simp add: quoteWilde_def string_eval hasPartialTagMatch_def hasPartialAuthorMatch_def)

text \<open>
  C5, as amended. Let the count be at least one and, where an author filter is given
  (\<open>authors\<close>, or a non-empty \<open>authorTerms\<close>), let every author string of the corpus and of
  the request be well formed. Then the matcher does not throw: it returns \<open>null\<close> exactly
  when no quote of the corpus satisfies all the filters, and otherwise a non-empty array.
\<close>

theorem matchers_null_iff_no_match:
  assumes "1 \<le> c"
    and "\<forall>ras. au = Some ras \<longrightarrow>
           (\<forall>q \<in> set corpus. wellFormed (author q)) \<and> (\<forall>a \<in> set ras. wellFormed a)"
    and "\<forall>sts. ats = Some sts \<and> sts \<noteq> [] \<longrightarrow>
           (\<forall>q \<in> set corpus. wellFormed (author q)) \<and> (\<forall>a \<in> set sts. wellFormed a)"
  shows "(\<exists>r. getQuotes rnd corpus mx mn tg c au = Inr r
            \<and> (r = None \<longleftrightarrow> \<not> (\<exists>q \<in> set corpus. satisfiesExact mx mn tg au q))
            \<and> (\<forall>qs. r = Some qs \<longrightarrow> qs \<noteq> []))
       \<and> (\<exists>r. searchQuotes rnd corpus mx mn tt c ats = Inr r
            \<and> (r = None \<longleftrightarrow> \<not> (\<exists>q \<in> set corpus. satisfiesPartial mx mn tt ats q))
            \<and> (\<forall>qs. r = Some qs \<longrightarrow> qs \<noteq> []))"
proof
  from assms(2) obtain v where "authorFilter au corpus = Inr v"
    using authorFilter_wellFormed by blast
  then have g: "getQuotes rnd corpus mx mn tg c au =
      (if filter (satisfiesExact mx mn tg au) corpus = [] then Inr None
       else Inr (Some (sample rnd c (filter (satisfiesExact mx mn tg au) corpus))))"
    by (simp add: getQuotes_unfold)
  show "\<exists>r. getQuotes rnd corpus mx mn tg c au = Inr r
            \<and> (r = None \<longleftrightarrow> \<not> (\<exists>q \<in> set corpus. satisfiesExact mx mn tg au q))
            \<and> (\<forall>qs. r = Some qs \<longrightarrow> qs \<noteq> [])"
    using assms(1) by (auto simp: g filter_empty_conv sample_nonempty)
next
  from assms(3) obtain v where "partialAuthorFilter ats corpus = Inr v"
    using partialAuthorFilter_wellFormed by blast
  then have g: "searchQuotes rnd corpus mx mn tt c ats =
      (if filter (satisfiesPartial mx mn tt ats) corpus = [] then Inr None
       else Inr (Some (sample rnd c (filter (satisfiesPartial mx mn tt ats) corpus))))"
    by (simp add: searchQuotes_unfold)
  show "\<exists>r. searchQuotes rnd corpus mx mn tt c ats = Inr r
            \<and> (r = None \<longleftrightarrow> \<not> (\<exists>q \<in> set corpus. satisfiesPartial mx mn tt ats q))
            \<and> (\<forall>qs. r = Some qs \<longrightarrow> qs \<noteq> [])"
    using assms(1) by (auto simp: g filter_empty_conv sample_nonempty)
qed

theorem matchers_null_iff_no_match_witness:
  "(1::int) \<le> 1 \<and> wellFormed (author quoteTwain) \<and> wellFormed (author quoteWilde)
   \<and> wellFormed (str ''mark%20twain'') \<and> wellFormed (str ''wild'')
   \<and> getQuotes (\<lambda>i. unit_zero) [quoteTwain, quoteWilde] (Some 10) (Some 100) None 1
        (Some [str ''mark%20twain'']) = Inr None
   \<and> \<not> satisfiesExact (Some 10) (Some 100) None (Some [str ''mark%20twain'']) quoteTwain
   \<and> \<not> satisfiesExact (Some 10) (Some 100) None (Some [str ''mark%20twain'']) quoteWilde
   \<and> searchQuotes (\<lambda>i. unit_zero) [quoteTwain, quoteWilde] None None None 1
        (Some [str ''wild'']) = Inr (Some [Some quoteWilde])
   \<and> satisfiesPartial None None None (Some [str ''wild'']) quoteWilde"
  using matchers_null_iff_no_match [where c = 1 and corpus = "[quoteTwain, quoteWilde]"
      and au = "Some [str ''mark%20twain'']" and ats = "Some [str ''wild'']"
      and rnd = "\<lambda>i. unit_zero" and mx = "Some 10" and mn = "Some 100" and tg = None
      and tt = None]
  by (simp add: quote_fields string_eval engine_eval satisfiesExact_def satisfiesPartial_def
      withinLength_def)

text \<open>
  C5 as stated fails on a malformed requested author: both matchers throw.
\<close>

theorem matchers_throw_counterexample:
  "getQuotes (\<lambda>i. unit_zero) [quoteTwain] None None None 1 (Some [str ''%'']) = Inl URIError
   \<and> searchQuotes (\<lambda>i. unit_zero) [quoteTwain] None None None 1 (Some [str ''%'']) = Inl URIError"
  by (simp add: quote_fields string_eval engine_eval)

text \<open>
  C6, as amended. An array returned by \<open>getQuotes\<close> has \<open>max(0, min(count, M))\<close> elements,
  \<open>M\<close> being the number of quotes of the corpus that satisfy all the filters, and each
  element is a quote of the corpus that satisfies them, the inclusive length bounds among
  them.
\<close>

theorem getQuotes_length_and_members:
  assumes "getQuotes rnd corpus mx mn tg c au = Inr (Some qs)"
  shows "int (length qs)
           = max 0 (min c (int (length (filter (satisfiesExact mx mn tg au) corpus))))
       \<and> (\<forall>x \<in> set qs. \<exists>q \<in> set corpus. x = Some q \<and> satisfiesExact mx mn tg au q)"
proof -
  let ?cands = "filter (satisfiesExact mx mn tg au) corpus"
  from assms have qs: "qs = sample rnd c ?cands" by (rule getQuotes_Some)
  from sample_positions [of rnd c ?cands] obtain ps where
    ps: "sample rnd c ?cands = map (\<lambda>p. Some (?cands ! p)) ps"
        "\<forall>p \<in> set ps. p < length ?cands"
        "int (length ps) = max 0 (min c (int (length ?cands)))"
    by blast
  have "\<exists>q \<in> set corpus. x = Some q \<and> satisfiesExact mx mn tg au q" if "x \<in> set qs" for x
  proof -
    from that qs ps(1) obtain p where p: "p \<in> set ps" "x = Some (?cands ! p)" by auto
    from ps(2) p(1) have "p < length ?cands" by blast
    then have "?cands ! p \<in> set ?cands" by (rule nth_mem)
    then have "?cands ! p \<in> set corpus \<and> satisfiesExact mx mn tg au (?cands ! p)" by simp
    with p(2) show ?thesis by blast
  qed
  moreover from qs ps(1,3) have "int (length qs) = max 0 (min c (int (length ?cands)))"
    by simp
  ultimately show ?thesis by blast
qed

theorem getQuotes_length_and_members_witness:
  "getQuotes (\<lambda>i. unit_half) corpusSeven (Some 50) (Some 50) None 1000 None
     = Inr (Some [Some quoteFifty, Some quoteFifty, Some quoteFifty, Some quoteFifty,
                  Some quoteFifty])
   \<and> length (filter (satisfiesExact (Some 50) (Some 50) None None) corpusSeven) = 5
   \<and> satisfiesExact (Some 50) (Some 50) None None quoteFifty"
proof -
  have ev: "getQuotes (\<lambda>i. unit_half) corpusSeven (Some 50) (Some 50) None 1000 None
     = Inr (Some [Some quoteFifty, Some quoteFifty, Some quoteFifty, Some quoteFifty,
                  Some quoteFifty])"
    by (simp add: corpusSeven_def quote_fields engine_eval)
  have sat: "satisfiesExact (Some 50) (Some 50) None None quoteFifty"
    by (simp add: satisfiesExact_def withinLength_def hasMatchingAuthor_def
        hasMatchingTags_def quote_fields)
  from getQuotes_length_and_members [OF ev]
  have "int (length (filter (satisfiesExact (Some 50) (Some 50) None None) corpusSeven)) = 5"
    by (simp add: min_def max_def split: if_splits)
  with ev sat show ?thesis by simp
qed

text \<open>
  C6 as stated fails for a negative count: the array returned is empty, and
  \<open>min(count, M)\<close> is negative.
\<close>

theorem getQuotes_negative_count_counterexample:
  "getQuotes (\<lambda>i. unit_zero) [quoteTwain] None None None (- 1) None = Inr (Some [])
   \<and> length (filter (satisfiesExact None None None None) [quoteTwain]) = 1
   \<and> int (length ([] :: quote option list)) \<noteq> min (- 1) 1"
  by (simp add: quote_fields engine_eval satisfiesExact_def withinLength_def)

text \<open>
  C7. The array returned by either matcher lists the candidates at pairwise distinct
  positions of the candidate list, one position per returned element. In the loop, after
  \<open>k\<close> of the \<open>K\<close> iterations the working copy holds exactly the candidates at the
  positions not drawn so far, \<open>N - k\<close> of them, and the loop goes on from that state.
\<close>

theorem sampling_distinct_positions:
  "(getQuotes rnd corpus mx mn tg c au = Inr (Some qs) \<longrightarrow>
      (\<exists>ps. qs = map (\<lambda>p. Some (filter (satisfiesExact mx mn tg au) corpus ! p)) ps
         \<and> distinct ps
         \<and> (\<forall>p \<in> set ps. p < length (filter (satisfiesExact mx mn tg au) corpus))))
   \<and> (searchQuotes rnd corpus mx mn tt c ats = Inr (Some qs) \<longrightarrow>
      (\<exists>ps. qs = map (\<lambda>p. Some (filter (satisfiesPartial mx mn tt ats) corpus ! p)) ps
         \<and> distinct ps
         \<and> (\<forall>p \<in> set ps. p < length (filter (satisfiesPartial mx mn tt ats) corpus))))
   \<and> (0 \<le> k \<and> k \<le> K \<and> K \<le> int (length cands) \<longrightarrow>
      (\<exists>ps rs. sampleLoop rnd 0 k [] cands
                  = (map (\<lambda>p. Some (cands ! p)) ps, map (\<lambda>p. cands ! p) rs)
         \<and> distinct (ps @ rs) \<and> set (ps @ rs) = {..<length cands}
         \<and> length ps = nat k \<and> length rs = length cands - nat k
         \<and> sampleLoop rnd 0 K [] cands
             = sampleLoop rnd k K (map (\<lambda>p. Some (cands ! p)) ps) (map (\<lambda>p. cands ! p) rs)))"
proof (intro conjI impI)
  assume "getQuotes rnd corpus mx mn tg c au = Inr (Some qs)"
  then have "qs = sample rnd c (filter (satisfiesExact mx mn tg au) corpus)"
    by (rule getQuotes_Some)
  then show "\<exists>ps. qs = map (\<lambda>p. Some (filter (satisfiesExact mx mn tg au) corpus ! p)) ps
         \<and> distinct ps
         \<and> (\<forall>p \<in> set ps. p < length (filter (satisfiesExact mx mn tg au) corpus))"
    using sample_positions [of rnd c "filter (satisfiesExact mx mn tg au) corpus"] by blast
next
  assume "searchQuotes rnd corpus mx mn tt c ats = Inr (Some qs)"
  then have "qs = sample rnd c (filter (satisfiesPartial mx mn tt ats) corpus)"
    by (rule searchQuotes_Some)
  then show "\<exists>ps. qs = map (\<lambda>p. Some (filter (satisfiesPartial mx mn tt ats) corpus ! p)) ps
         \<and> distinct ps
         \<and> (\<forall>p \<in> set ps. p < length (filter (satisfiesPartial mx mn tt ats) corpus))"
    using sample_positions [of rnd c "filter (satisfiesPartial mx mn tt ats) corpus"] by blast
next
  assume h: "0 \<le> k \<and> k \<le> K \<and> K \<le> int (length cands)"
  then have "0 \<le> k" "k \<le> int (length cands)" by simp_all
  from sampleLoop_positions [OF this, of rnd] obtain ps rs where
    p: "fst (sampleLoop rnd 0 k [] cands) = map (\<lambda>p. Some (cands ! p)) ps"
       "snd (sampleLoop rnd 0 k [] cands) = map (\<lambda>p. cands ! p) rs"
       "distinct (ps @ rs)" "set (ps @ rs) = {..<length cands}" "length ps = nat k"
    by blast
  from p(3) have "card (set (ps @ rs)) = length (ps @ rs)" by (rule distinct_card)
  with p(4) have "length ps + length rs = length cands" by simp
  with p(5) have l: "length rs = length cands - nat k" by simp
  from h have "sampleLoop rnd 0 K [] cands
      = sampleLoop rnd k K (fst (sampleLoop rnd 0 k [] cands)) (snd (sampleLoop rnd 0 k [] cands))"
    by (intro sampleLoop_split) simp_all
  then have s: "sampleLoop rnd 0 K [] cands
      = sampleLoop rnd k K (map (\<lambda>p. Some (cands ! p)) ps) (map (\<lambda>p. cands ! p) rs)"
    by (simp only: p(1,2))
  have "sampleLoop rnd 0 k [] cands
      = (map (\<lambda>p. Some (cands ! p)) ps, map (\<lambda>p. cands ! p) rs)"
    using p(1,2) by (simp add: prod_eq_iff)
  with p(3,4,5) l s
  show "\<exists>ps rs. sampleLoop rnd 0 k [] cands
                  = (map (\<lambda>p. Some (cands ! p)) ps, map (\<lambda>p. cands ! p) rs)
         \<and> distinct (ps @ rs) \<and> set (ps @ rs) = {..<length cands}
         \<and> length ps = nat k \<and> length rs = length cands - nat k
         \<and> sampleLoop rnd 0 K [] cands
             = sampleLoop rnd k K (map (\<lambda>p. Some (cands ! p)) ps) (map (\<lambda>p. cands ! p) rs)"
    by blast
qed

theorem sampling_distinct_positions_witness:
  "getQuotes (\<lambda>i. unit_half) [quoteTwain, quoteWilde, quoteFifty] None None None 2 None
     = Inr (Some [Some quoteWilde, Some quoteFifty])
   \<and> searchQuotes (\<lambda>i. unit_half) [quoteTwain, quoteWilde, quoteFifty] None None None 2 None
     = Inr (Some [Some quoteWilde, Some quoteFifty])
   \<and> (\<exists>ps. [Some quoteWilde, Some quoteFifty]
              = map (\<lambda>p. Some ([quoteTwain, quoteWilde, quoteFifty] ! p)) ps
         \<and> distinct ps)
   \<and> length (fst (sampleLoop (\<lambda>i. unit_half) 0 1 [] [quoteTwain, quoteWilde, quoteFifty])) = 1
   \<and> length (snd (sampleLoop (\<lambda>i. unit_half) 0 1 [] [quoteTwain, quoteWilde, quoteFifty])) = 2
   \<and> sampleLoop (\<lambda>i. unit_half) 0 1 [] [quoteTwain, quoteWilde, quoteFifty]
       = ([Some quoteWilde], [quoteTwain, quoteFifty])"
proof -
  let ?cands = "[quoteTwain, quoteWilde, quoteFifty]"
  let ?qs = "[Some quoteWilde, Some quoteFifty]"
  note t = sampling_distinct_positions [where rnd = "\<lambda>i. unit_half" and corpus = ?cands
      and mx = None and mn = None and tg = None and tt = None and c = 2 and au = None
      and ats = None and qs = ?qs and k = 1 and K = 2 and cands = ?cands]
  have g: "getQuotes (\<lambda>i. unit_half) ?cands None None None 2 None = Inr (Some ?qs)"
    by (simp add: quote_fields engine_eval)
  have s: "searchQuotes (\<lambda>i. unit_half) ?cands None None None 2 None = Inr (Some ?qs)"
    by (simp add: quote_fields engine_eval)
  have f: "filter (satisfiesExact None None None None) ?cands = ?cands"
    "filter (satisfiesPartial None None None None) ?cands = ?cands"
    by (simp_all add: satisfiesExact_def satisfiesPartial_def withinLength_def
        hasMatchingAuthor_def hasMatchingTags_def hasPartialAuthorMatch_def
        hasPartialTagMatch_def)
  have x0: "\<exists>ps. ?qs = map (\<lambda>p. Some (?cands ! p)) ps \<and> distinct ps
      \<and> (\<forall>p \<in> set ps. p < length ?cands)"
    using t [THEN conjunct1, THEN mp, OF g] unfolding f .
  have y0: "\<exists>ps. ?qs = map (\<lambda>p. Some (?cands ! p)) ps \<and> distinct ps
      \<and> (\<forall>p \<in> set ps. p < length ?cands)"
    using t [THEN conjunct2, THEN conjunct1, THEN mp, OF s] unfolding f .
  from x0 y0 have x: "\<exists>ps. ?qs = map (\<lambda>p. Some (?cands ! p)) ps \<and> distinct ps"
    by iprover
  have h: "0 \<le> (1::int) \<and> (1::int) \<le> 2 \<and> 2 \<le> int (length ?cands)" by simp
  from t [THEN conjunct2, THEN conjunct2, THEN mp, OF h]
  obtain ps rs where
    p: "sampleLoop (\<lambda>i. unit_half) 0 1 [] ?cands
          = (map (\<lambda>p. Some (?cands ! p)) ps, map (\<lambda>p. ?cands ! p) rs)"
       "length ps = nat 1" "length rs = length ?cands - nat 1"
    by blast
  from p have "length (fst (sampleLoop (\<lambda>i. unit_half) 0 1 [] ?cands)) = 1"
    "length (snd (sampleLoop (\<lambda>i. unit_half) 0 1 [] ?cands)) = 2"
    by simp_all
  moreover have "sampleLoop (\<lambda>i. unit_half) 0 1 [] ?cands
       = ([Some quoteWilde], [quoteTwain, quoteFifty])"
    by (simp add: engine_eval)
  ultimately show ?thesis using g s x by simp
qed

text \<open>
  C8, as amended. Whenever the author filter of \<open>getQuotes\<close> does not throw, the three
  filtering steps applied in any order yield the corpus filtered by the conjunction of the
  three predicates, and this list is what \<open>getQuotes\<close> samples from (\<open>null\<close> being returned
  when it is empty). The author filter does not throw when no author filter is given, or
  when every author string of the corpus and of the request is well formed.
\<close>

theorem filters_order_independent:
  assumes "mset ord = mset [AuthorStage, TagStage, LengthStage]"
  shows "(getQuotes rnd corpus mx mn tg c au = Inr r \<longrightarrow>
            applyStages mx mn tg au ord corpus
              = Inr (filter (satisfiesExact mx mn tg au) corpus)
            \<and> r = (if filter (satisfiesExact mx mn tg au) corpus = [] then None
                   else Some (sample rnd c (filter (satisfiesExact mx mn tg au) corpus))))
       \<and> ((\<forall>ras. au = Some ras \<longrightarrow>
              (\<forall>q \<in> set corpus. wellFormed (author q)) \<and> (\<forall>a \<in> set ras. wellFormed a)) \<longrightarrow>
            applyStages mx mn tg au ord corpus
              = Inr (filter (satisfiesExact mx mn tg au) corpus)
            \<and> getQuotes rnd corpus mx mn tg c au
                = Inr (if filter (satisfiesExact mx mn tg au) corpus = [] then None
                       else Some (sample rnd c (filter (satisfiesExact mx mn tg au) corpus))))"
proof -
  from assms have "set ord = set [AuthorStage, TagStage, LengthStage]"
    by (rule mset_eq_setD)
  then have s: "AuthorStage \<in> set ord" "TagStage \<in> set ord" "LengthStage \<in> set ord"
    by simp_all
  have any_order: "applyStages mx mn tg au ord corpus
      = Inr (filter (satisfiesExact mx mn tg au) corpus)"
    if v: "authorFilter au corpus = Inr v" for v
  proof -
    from v have d: "\<forall>q \<in> set corpus. \<exists>b. hasMatchingAuthor q au = Inr b"
      by (rule authorFilter_Inr_defined)
    show ?thesis
      using applyStages_filter [OF d, of mx mn tg ord] s
      by (simp add: satisfiesExact_def [abs_def])
  qed
  have result: "getQuotes rnd corpus mx mn tg c au
      = Inr (if filter (satisfiesExact mx mn tg au) corpus = [] then None
             else Some (sample rnd c (filter (satisfiesExact mx mn tg au) corpus)))"
    if v: "authorFilter au corpus = Inr v" for v
    using v by (simp add: getQuotes_unfold)
  show ?thesis
  proof (intro conjI impI)
    assume g: "getQuotes rnd corpus mx mn tg c au = Inr r"
    then obtain v where v: "authorFilter au corpus = Inr v"
      by (cases "authorFilter au corpus") (simp_all add: getQuotes_unfold)
    from any_order [OF v]
    show "applyStages mx mn tg au ord corpus
        = Inr (filter (satisfiesExact mx mn tg au) corpus)" .
    from g result [OF v]
    show "r = (if filter (satisfiesExact mx mn tg au) corpus = [] then None
               else Some (sample rnd c (filter (satisfiesExact mx mn tg au) corpus)))"
      by simp
  next
    assume w: "\<forall>ras. au = Some ras \<longrightarrow>
        (\<forall>q \<in> set corpus. wellFormed (author q)) \<and> (\<forall>a \<in> set ras. wellFormed a)"
    then obtain v where v: "authorFilter au corpus = Inr v"
      using authorFilter_wellFormed by blast
    from any_order [OF v]
    show "applyStages mx mn tg au ord corpus
        = Inr (filter (satisfiesExact mx mn tg au) corpus)" .
  next
    assume w: "\<forall>ras. au = Some ras \<longrightarrow>
        (\<forall>q \<in> set corpus. wellFormed (author q)) \<and> (\<forall>a \<in> set ras. wellFormed a)"
    then obtain v where v: "authorFilter au corpus = Inr v"
      using authorFilter_wellFormed by blast
    from result [OF v]
    show "getQuotes rnd corpus mx mn tg c au
        = Inr (if filter (satisfiesExact mx mn tg au) corpus = [] then None
               else Some (sample rnd c (filter (satisfiesExact mx mn tg au) corpus)))" .
  qed
qed

theorem filters_order_independent_witness:
  "mset [LengthStage, TagStage, AuthorStage] = mset [AuthorStage, TagStage, LengthStage]
   \<and> wellFormed (author quoteTwain) \<and> wellFormed (author quoteWilde)
   \<and> wellFormed (author quoteFifty) \<and> wellFormed (str ''mark twain'')
   \<and> wellFormed (str ''abraham%20lincoln'')
   \<and> getQuotes (\<lambda>i. unit_zero) corpusSeven (Some 50) (Some 45) (Some [str ''wisdom'']) 2
       (Some [str ''mark twain'', str ''abraham%20lincoln''])
     = Inr (Some [Some quoteFifty, Some quoteTwain])
   \<and> applyStages (Some 50) (Some 45) (Some [str ''wisdom''])
        (Some [str ''mark twain'', str ''abraham%20lincoln''])
        [LengthStage, TagStage, AuthorStage] corpusSeven
     = Inr [quoteFifty, quoteTwain, quoteFifty, quoteFifty, quoteFifty, quoteFifty]
   \<and> sample (\<lambda>i. unit_zero) 2
        [quoteFifty, quoteTwain, quoteFifty, quoteFifty, quoteFifty, quoteFifty]
     = [Some quoteFifty, Some quoteTwain]"
proof -
  let ?au = "Some [str ''mark twain'', str ''abraham%20lincoln'']"
  let ?tg = "Some [str ''wisdom'']"
  let ?cands = "[quoteFifty, quoteTwain, quoteFifty, quoteFifty, quoteFifty, quoteFifty]"
  note t = filters_order_independent [where ord = "[LengthStage, TagStage, AuthorStage]"
      and rnd = "\<lambda>i. unit_zero" and corpus = corpusSeven and mx = "Some 50" and mn = "Some 45"
      and tg = ?tg and c = 2 and au = ?au and r = "Some [Some quoteFifty, Some quoteTwain]"]
  have m: "mset [LengthStage, TagStage, AuthorStage] = mset [AuthorStage, TagStage, LengthStage]"
    by simp
  have w: "wellFormed (author quoteTwain)" "wellFormed (author quoteWilde)"
    "wellFormed (author quoteFifty)" "wellFormed (str ''mark twain'')"
    "wellFormed (str ''abraham%20lincoln'')"
    by (simp_all add: quote_fields string_eval)
  have g: "getQuotes (\<lambda>i. unit_zero) corpusSeven (Some 50) (Some 45) ?tg 2 ?au
     = Inr (Some [Some quoteFifty, Some quoteTwain])"
    by (simp add: corpusSeven_def quote_fields string_eval engine_eval)
  have f: "filter (satisfiesExact (Some 50) (Some 45) ?tg ?au) corpusSeven = ?cands"
    by (simp add: corpusSeven_def quote_fields string_eval satisfiesExact_def withinLength_def
        hasMatchingAuthor_def hasMatchingTags_def)
  have h: "\<forall>ras. ?au = Some ras \<longrightarrow>
      (\<forall>q \<in> set corpusSeven. wellFormed (author q)) \<and> (\<forall>a \<in> set ras. wellFormed a)"
    using w by (simp add: corpusSeven_def)
  from t [OF m, THEN conjunct1, THEN mp, OF g]
  have a: "applyStages (Some 50) (Some 45) ?tg ?au [LengthStage, TagStage, AuthorStage]
      corpusSeven = Inr ?cands"
    by (simp add: f)
  from t [OF m, THEN conjunct2, THEN mp, OF h]
  have "getQuotes (\<lambda>i. unit_zero) corpusSeven (Some 50) (Some 45) ?tg 2 ?au
      = Inr (Some (sample (\<lambda>i. unit_zero) 2 ?cands))"
    by (simp add: f)
  with g have b: "sample (\<lambda>i. unit_zero) 2 ?cands = [Some quoteFifty, Some quoteTwain]"
    by simp
  from m w g a b show ?thesis by simp
qed

text \<open>
  C8 as stated fails where a malformed author string is decoded: here the second requested
  author is malformed. With the author filter first, as in \<open>getQuotes\<close>, filtering the
  second quote decodes it and throws; with the tag filter first only the first quote is
  left, its match is found before the malformed string, and a candidate list results.
\<close>

theorem filters_order_throw_counterexample:
  "mset [TagStage, AuthorStage, LengthStage] = mset [AuthorStage, TagStage, LengthStage]
   \<and> applyStages None None (Some [str ''wisdom'']) (Some [str ''Mark Twain'', str ''%''])
        [AuthorStage, TagStage, LengthStage] [quoteTwain, quoteWilde] = Inl URIError
   \<and> applyStages None None (Some [str ''wisdom'']) (Some [str ''Mark Twain'', str ''%''])
        [TagStage, AuthorStage, LengthStage] [quoteTwain, quoteWilde] = Inr [quoteTwain]
   \<and> getQuotes (\<lambda>i. unit_zero) [quoteTwain, quoteWilde] None None (Some [str ''wisdom'']) 1
        (Some [str ''Mark Twain'', str ''%'']) = Inl URIError"
  by (simp add: quote_fields string_eval engine_eval)

text \<open>
  C9. A call of \<open>getQuotes\<close> or of \<open>searchQuotes\<close> leaves the corpus array and every quote
  object as they were: the call writes only to arrays it has allocated itself (by
  \<open>frame_getQuotes_heap\<close> and \<open>frame_searchQuotes_heap\<close> this holds of every array that
  existed before the call). By \<open>getQuotes_heap_refines\<close> and \<open>searchQuotes_heap_refines\<close> the
  calls on the heap return what the value-level functions return.
\<close>

theorem corpus_unchanged:
  assumes "quotesData < next_addr h"
  shows "arrays (snd (getQuotes_heap rnd quotesData mx mn tg c au h)) quotesData
           = arrays h quotesData
       \<and> objects (snd (getQuotes_heap rnd quotesData mx mn tg c au h)) = objects h
       \<and> arrays (snd (searchQuotes_heap rnd quotesData mx mn tt c ats h)) quotesData
           = arrays h quotesData
       \<and> objects (snd (searchQuotes_heap rnd quotesData mx mn tt c ats h)) = objects h"
  using assms frame_getQuotes_heap [of h rnd quotesData mx mn tg c au]
    frame_searchQuotes_heap [of h rnd quotesData mx mn tt c ats]
  by (simp add: frame_def)

theorem corpus_unchanged_witness:
  "0 < next_addr heapTwo
   \<and> arrays heapTwo 0 = Some [Some 0, Some 1]
   \<and> fst (getQuotes_heap (\<lambda>i. unit_zero) 0 None None None 2 None heapTwo) = Inr (Some 2)
   \<and> arrays (snd (getQuotes_heap (\<lambda>i. unit_zero) 0 None None None 2 None heapTwo)) 2
       = Some [Some 0, Some 1]
   \<and> arrays (snd (getQuotes_heap (\<lambda>i. unit_zero) 0 None None None 2 None heapTwo)) 3
       = Some []
   \<and> arrays (snd (getQuotes_heap (\<lambda>i. unit_zero) 0 None None None 2 None heapTwo)) 0
       = Some [Some 0, Some 1]"
proof -
  have a: "0 < next_addr heapTwo" "arrays heapTwo 0 = Some [Some 0, Some 1]"
    by (simp_all add: heapTwo_def)
  have r: "fst (getQuotes_heap (\<lambda>i. unit_zero) 0 None None None 2 None heapTwo) = Inr (Some 2)"
    "arrays (snd (getQuotes_heap (\<lambda>i. unit_zero) 0 None None None 2 None heapTwo)) 2
       = Some [Some 0, Some 1]"
    "arrays (snd (getQuotes_heap (\<lambda>i. unit_zero) 0 None None None 2 None heapTwo)) 3
       = Some []"
    by (simp_all add: heapTwo_def heap_eval)
  from corpus_unchanged [OF a(1), of "\<lambda>i. unit_zero" None None None 2 None] a r
  show ?thesis by simp
qed

text \<open>
  C10, as amended. Let the count (or limit) be zero or less and, where an author filter is
  given (\<open>authors\<close>, or a non-empty \<open>authorTerms\<close>), let every author string of the corpus
  and of the request be well formed. Then, when at least one quote of the corpus satisfies
  all the filters, the matcher returns the empty array.
\<close>

theorem nonpositive_count_empty_array:
  assumes "c \<le> 0"
    and "\<forall>ras. au = Some ras \<longrightarrow>
           (\<forall>q \<in> set corpus. wellFormed (author q)) \<and> (\<forall>a \<in> set ras. wellFormed a)"
    and "\<forall>sts. ats = Some sts \<and> sts \<noteq> [] \<longrightarrow>
           (\<forall>q \<in> set corpus. wellFormed (author q)) \<and> (\<forall>a \<in> set sts. wellFormed a)"
  shows "((\<exists>q \<in> set corpus. satisfiesExact mx mn tg au q) \<longrightarrow>
            getQuotes rnd corpus mx mn tg c au = Inr (Some []))
       \<and> ((\<exists>q \<in> set corpus. satisfiesPartial mx mn tt ats q) \<longrightarrow>
            searchQuotes rnd corpus mx mn tt c ats = Inr (Some []))"
proof (intro conjI impI)
  assume "\<exists>q \<in> set corpus. satisfiesExact mx mn tg au q"
  then have ne: "filter (satisfiesExact mx mn tg au) corpus \<noteq> []"
    by (simp add: filter_empty_conv)
  from assms(2) obtain v where "authorFilter au corpus = Inr v"
    using authorFilter_wellFormed by blast
  with ne assms(1) show "getQuotes rnd corpus mx mn tg c au = Inr (Some [])"
    by (simp add: getQuotes_unfold sample_nonpositive)
next
  assume "\<exists>q \<in> set corpus. satisfiesPartial mx mn tt ats q"
  then have ne: "filter (satisfiesPartial mx mn tt ats) corpus \<noteq> []"
    by (simp add: filter_empty_conv)
  from assms(3) obtain v where "partialAuthorFilter ats corpus = Inr v"
    using partialAuthorFilter_wellFormed by blast
  with ne assms(1) show "searchQuotes rnd corpus mx mn tt c ats = Inr (Some [])"
    by (simp add: searchQuotes_unfold sample_nonpositive)
qed

theorem nonpositive_count_empty_array_witness:
  "(0::int) \<le> 0 \<and> wellFormed (author quoteTwain) \<and> wellFormed (author quoteWilde)
   \<and> wellFormed (str ''Mark%20Twain'') \<and> wellFormed (str ''osc'')
   \<and> satisfiesExact None None None (Some [str ''Mark%20Twain'']) quoteTwain
   \<and> getQuotes (\<lambda>i. unit_half) [quoteTwain, quoteWilde] None None None 0
        (Some [str ''Mark%20Twain'']) = Inr (Some [])
   \<and> satisfiesPartial None None None (Some [str ''osc'']) quoteWilde
   \<and> searchQuotes (\<lambda>i. unit_half) [quoteTwain, quoteWilde] None None None (- 3)
        (Some [str ''osc'']) = Inr (Some [])"
proof -
  let ?corpus = "[quoteTwain, quoteWilde]"
  have w: "wellFormed (author quoteTwain)" "wellFormed (author quoteWilde)"
    "wellFormed (str ''Mark%20Twain'')" "wellFormed (str ''osc'')"
    by (simp_all add: quote_fields string_eval)
  have s1: "satisfiesExact None None None (Some [str ''Mark%20Twain'']) quoteTwain"
    by (simp add: satisfiesExact_def withinLength_def hasMatchingAuthor_def hasMatchingTags_def
        quote_fields string_eval)
  have s2: "satisfiesPartial None None None (Some [str ''osc'']) quoteWilde"
    by (simp add: satisfiesPartial_def withinLength_def hasPartialAuthorMatch_def
        hasPartialTagMatch_def quote_fields string_eval)
  have g: "getQuotes (\<lambda>i. unit_half) ?corpus None None None 0 (Some [str ''Mark%20Twain''])
      = Inr (Some [])"
    using nonpositive_count_empty_array [where c = 0 and corpus = ?corpus
        and au = "Some [str ''Mark%20Twain'']" and ats = None and mx = None and mn = None
        and tg = None and rnd = "\<lambda>i. unit_half" and tt = None] w s1 by simp
  have h: "searchQuotes (\<lambda>i. unit_half) ?corpus None None None (- 3) (Some [str ''osc''])
      = Inr (Some [])"
    using nonpositive_count_empty_array [where c = "- 3" and corpus = ?corpus and au = None
        and ats = "Some [str ''osc'']" and mx = None and mn = None and tg = None
        and rnd = "\<lambda>i. unit_half" and tt = None] w s2 by simp
  from w s1 s2 g h show ?thesis by simp
qed

text \<open>
  C10 as stated fails where a malformed requested author is reached: the first quote
  satisfies the filters (its match is found before the malformed string), the second makes
  the call throw.
\<close>

theorem nonpositive_count_throw_counterexample:
  "satisfiesExact None None None (Some [str ''Mark Twain'', str ''%'']) quoteTwain
   \<and> getQuotes (\<lambda>i. unit_zero) [quoteTwain, quoteWilde] None None None 0
        (Some [str ''Mark Twain'', str ''%'']) = Inl URIError"
  by (simp add: satisfiesExact_def withinLength_def quote_fields string_eval engine_eval)

end
